theory Spec2Isabelle
  imports Complex_Main "HOL-Library.AList"
begin

section \<open>Data model of the canvas view\<close>

text \<open>
  The development embeds the reconciliation engine, the activation bookkeeping, the
  completion callbacks and the mode machine of \<open>CanvasViewImpl\<close>
  (\<open>cvat-canvas/src/typescript/canvasView.ts\<close>).

  The view keeps three dictionaries keyed by the object identifier: \<open>svgShapes\<close>,
  \<open>svgTexts\<close> and \<open>drawnStates\<close>.  The first two are only ever tested for membership, so
  they are sets of identifiers; \<open>drawnStates\<close> is enumerated with \<open>Object.keys\<close>, so it is
  an association list.  Everything the view does to the rendering surface, every event it
  dispatches on the host element and every call it makes to a gesture handler or to the
  controller is appended to a trace, in program order.  A JavaScript exception is the
  left injection of a sum type.
\<close>

datatype Mode = IDLE | DRAW | EDIT | MERGE | SPLIT | GROUP | DRAG | RESIZE
  | DRAG_CANVAS | ZOOM_CANVAS | INTERACT | SELECT_REGION

datatype js_error = TypeError | RangeError | InvalidStateError

datatype hook = RemoveDrag | RemoveResize

text \<open>
  An object state as the view reads it.  \<open>saveState\<close> copies exactly these fields, so a drawn
  state has the same shape; the \<open>elements\<close> of a drawn state that is not a skeleton are
  \<open>null\<close> in the source and are never read there, here they are the empty list.
\<close>

datatype ObjectState = ObjectState
  (clientID: nat) (shapeType: string) (points: "real list") (rotation: real)
  (occluded: bool) (hidden: bool) (outside: bool) (lock: bool) (pinned: bool)
  (zOrder: int) (updated: nat) (frame: nat) (label_id: nat) (color: string)
  (group_id: nat) (group_color: string) (attributes: "(nat \<times> string) list")
  (descriptions: "string list") (source: string) (elements: "ObjectState list")

type_synonym DrawnState = ObjectState

record ActiveElement =
  ae_clientID :: "nat option"
  ae_attributeID :: "nat option"

record Configuration =
  displayAllText :: bool
  forceDisableEditing :: bool
  showProjections :: bool
  textContent :: string
  textLayout :: string
  appearance :: string

record DrawData =
  dd_enabled :: bool
  dd_redraw :: "nat option"

record InteractionData =
  id_enabled :: bool
  id_intermediateShape :: bool

text \<open>The payload a draw handler passes to \<open>onDrawDone\<close>.\<close>

record DrawResult =
  dr_clientID :: "nat option"
  dr_points :: "real list option"
  dr_elements :: "real list list option"

datatype event =
    Canceled
  | Drawn DrawResult int "bool option" real
  | Edited ObjectState "real list" real
  | Activated ObjectState
  | DragShape nat
  | ResizeShape nat
  | CanvasSetup
  | Reshape
  | Fit
  | DragStart
  | DragStop
  | ZoomStart
  | ZoomStop
  | CanvasError
  | Destroy

datatype call =
    DrawHandler_draw DrawData
  | DrawHandler_cancel
  | InteractionHandler_interact InteractionData
  | InteractionHandler_cancel
  | InteractionHandler_destroy
  | MergeHandler_merge bool
  | MergeHandler_select
  | MergeHandler_repeatSelection
  | MergeHandler_cancel
  | SplitHandler_split bool
  | SplitHandler_select
  | SplitHandler_cancel
  | GroupHandler_group bool
  | GroupHandler_select
  | GroupHandler_resetSelectedObjects
  | GroupHandler_cancel
  | RegionSelector_select bool
  | RegionSelector_cancel
  | EditHandler_cancel
  | ZoomHandler_zoom
  | ZoomHandler_cancel
  | AutoborderHandler_updateObjects
  | Handlers_configurate
  | Controller_draw bool
  | Window_mouseup

datatype dom_op =
    AddShape nat string
  | AddElementShape nat nat
  | RemoveShape nat
  | AddText nat
  | RemoveText nat
  | UpdateTextPosition nat
  | SetHiddenClass nat bool
  | SetTextHiddenClass nat bool
  | SetZOrderAttr nat int
  | SetOccludedClass nat bool
  | Untransform nat
  | SetGeometry nat "real list"
  | Rotate nat real
  | PatchAttributeText nat nat string
  | SetColor nat
  | SortObjects
  | SetAttributeHighlight nat nat bool
  | DeactivateShape nat
  | ActivateShape nat
  | SetPointerEvents nat bool
  | ShowDirection nat real
  | SetProjections nat bool
  | Repaint string

datatype effect = Dispatch event | Call call | Dom dom_op

text \<open>
  What the view reads from its controller.  \<open>this.mode\<close> is a getter and setter pair over
  \<open>controller.mode\<close>, so the mode lives here.
\<close>

record Controller =
  c_mode :: Mode
  c_objects :: "ObjectState list"
  c_activeElement :: ActiveElement
  c_configuration :: Configuration
  c_offset :: real
  c_zLayer :: "int option"
  c_drawData :: DrawData
  c_interactionData :: InteractionData
  c_mergeData :: bool
  c_splitData :: bool
  c_groupData :: bool
  c_imageBitmap :: bool

record view =
  controller :: Controller
  cursor :: string
  svgShapes :: "nat set"
  svgTexts :: "nat set"
  drawnStates :: "(nat \<times> DrawnState) list"
  activeElement :: ActiveElement
  configuration :: Configuration
  drawHidden :: "nat list"
  removeHooks :: "(nat \<times> hook) set"
  trace :: "effect list"

type_synonym 'a result = "js_error + 'a"

definition mode :: "view \<Rightarrow> Mode" where
  "mode v = c_mode (controller v)"

definition set_mode :: "Mode \<Rightarrow> view \<Rightarrow> view" where
  "set_mode m v = v\<lparr>controller := (controller v)\<lparr>c_mode := m\<rparr>\<rparr>"

definition emit :: "effect \<Rightarrow> view \<Rightarrow> view" where
  "emit e v = v\<lparr>trace := trace v @ [e]\<rparr>"

definition and_then :: "'a result \<Rightarrow> ('a \<Rightarrow> 'b result) \<Rightarrow> 'b result" where
  "and_then m f = (case m of Inl e \<Rightarrow> Inl e | Inr x \<Rightarrow> f x)"

text \<open>
  A method call on \<open>this.svgShapes[clientID]\<close>: a \<open>TypeError\<close> when the dictionary has no
  such entry, the operation on the primitive otherwise.
\<close>

definition on_shape :: "nat \<Rightarrow> dom_op \<Rightarrow> view \<Rightarrow> view result" where
  "on_shape cid op v = (if cid \<in> svgShapes v then Inr (emit (Dom op) v) else Inl TypeError)"

text \<open>\<open>Object.keys\<close> of a dictionary with integer keys lists them in ascending order.\<close>

definition object_keys :: "(nat \<times> 'a) list \<Rightarrow> nat list" where
  "object_keys al = sort (remdups (map fst al))"

text \<open>\<open>this.controller.objects.filter(s => s.clientID === clientID)[0]\<close>\<close>

definition find_state :: "nat \<Rightarrow> ObjectState list \<Rightarrow> ObjectState option" where
  "find_state cid objs = List.find (\<lambda>s. clientID s = cid) objs"

text \<open>
  Modelled from the spec: \<open>translateToCanvas\<close> is imported from \<open>shared.ts\<close>, which is not
  part of the reviewed source; the spec describes it as applying the fixed offset
  translation to every coordinate.
\<close>

definition translateToCanvas :: "real \<Rightarrow> real list \<Rightarrow> real list" where
  "translateToCanvas off ps = map (\<lambda>p. p + off) ps"

definition stateIsLocked :: "view \<Rightarrow> ObjectState \<Rightarrow> bool" where
  "stateIsLocked v s = (lock s \<or> forceDisableEditing (c_configuration (controller v)))"

definition isInnerHidden :: "view \<Rightarrow> nat \<Rightarrow> bool" where
  "isInnerHidden v cid = (cid \<in> set (drawHidden v))"

fun saveState :: "ObjectState \<Rightarrow> DrawnState" where
  "saveState (ObjectState cid st pts rot occ hid out lk pin z upd fr lid col gid gcol ats ds src els) =
     ObjectState cid st pts rot occ hid out lk pin z upd fr lid col gid gcol ats ds src
       (if st = ''skeleton'' then map saveState els else [])"

section \<open>Label primitives\<close>

text \<open>
  \<open>deleteText\<close> and \<open>updateTextPosition\<close> recurse through the elements of the drawn state
  stored under the identifier.  The recursion follows identifiers through the store, so
  it does not return when a stored skeleton reaches itself through its elements; the
  source then fails with a \<open>RangeError\<close> (call stack exhausted).  A call chain without a
  repeated key is at most one longer than the number of stored keys, so the model gives
  the recursion that depth and reports \<open>RangeError\<close> beyond it.
\<close>

fun deleteText_rec :: "nat \<Rightarrow> nat \<Rightarrow> view \<Rightarrow> view result"
  and deleteText_elems :: "nat \<Rightarrow> ObjectState list \<Rightarrow> view \<Rightarrow> view result" where
  "deleteText_rec 0 cid v = Inl RangeError"
| "deleteText_rec (Suc n) cid v =
     (let v1 = (if cid \<in> svgTexts v
                then emit (Dom (RemoveText cid)) (v\<lparr>svgTexts := svgTexts v - {cid}\<rparr>)
                else v)
      in case map_of (drawnStates v1) cid of
           None \<Rightarrow> Inr v1
         | Some d \<Rightarrow> if shapeType d = ''skeleton'' then deleteText_elems n (elements d) v1
                     else Inr v1)"
| "deleteText_elems n [] v = Inr v"
| "deleteText_elems n (e # es) v =
     (case deleteText_rec n (clientID e) v of
        Inl x \<Rightarrow> Inl x
      | Inr v' \<Rightarrow> deleteText_elems n es v')"

definition deleteText :: "nat \<Rightarrow> view \<Rightarrow> view result" where
  "deleteText cid v = deleteText_rec (Suc (length (drawnStates v))) cid v"

fun updateTextPosition_rec :: "nat \<Rightarrow> nat \<Rightarrow> view \<Rightarrow> view result"
  and updateTextPosition_elems :: "nat \<Rightarrow> ObjectState list \<Rightarrow> view \<Rightarrow> view result" where
  "updateTextPosition_rec 0 cid v = Inl RangeError"
| "updateTextPosition_rec (Suc n) cid v =
     (if cid \<notin> svgShapes v then Inr v
      else let v1 = emit (Dom (UpdateTextPosition cid)) v
           in case map_of (drawnStates v1) cid of
                None \<Rightarrow> Inr v1
              | Some d \<Rightarrow> if shapeType d = ''skeleton''
                          then updateTextPosition_elems n (elements d) v1
                          else Inr v1)"
| "updateTextPosition_elems n [] v = Inr v"
| "updateTextPosition_elems n (e # es) v =
     (if clientID e \<in> svgTexts v
      then (case updateTextPosition_rec n (clientID e) v of
              Inl x \<Rightarrow> Inl x
            | Inr v' \<Rightarrow> updateTextPosition_elems n es v')
      else updateTextPosition_elems n es v)"

definition updateTextPosition :: "nat \<Rightarrow> view \<Rightarrow> view result" where
  "updateTextPosition cid v = updateTextPosition_rec (Suc (length (drawnStates v))) cid v"

text \<open>
  \<open>addText\<close> builds the label of a state and returns it; the caller stores it under the
  state's identifier.  For a skeleton it first builds and stores the labels of the
  elements that have none.
\<close>

fun addText :: "ObjectState \<Rightarrow> view \<Rightarrow> view"
  and addText_elems :: "ObjectState list \<Rightarrow> view \<Rightarrow> view" where
  "addText (ObjectState cid st pts rot occ hid out lk pin z upd fr lid col gid gcol ats ds src els) v =
     emit (Dom (AddText cid)) (if st = ''skeleton'' then addText_elems els v else v)"
| "addText_elems [] v = v"
| "addText_elems (e # es) v =
     addText_elems es
       (if clientID e \<in> svgTexts v then v
        else (let v' = addText e v in v'\<lparr>svgTexts := insert (clientID e) (svgTexts v')\<rparr>))"

section \<open>Direction arrow of a polygon or polyline\<close>

text \<open>
  Modelled from the spec: \<open>vectorLength\<close> and \<open>scalarProduct\<close> are imported from
  \<open>shared.ts\<close>, which is not part of the reviewed source; the spec speaks of the length of
  the direction vector, which is zero exactly when the two points coincide.
\<close>

definition vectorLength :: "real \<times> real \<Rightarrow> real" where
  "vectorLength w = sqrt (fst w * fst w + snd w * snd w)"

definition scalarProduct :: "real \<times> real \<Rightarrow> real \<times> real \<Rightarrow> real" where
  "scalarProduct a b = fst a * fst b + snd a * snd b"

text \<open>
  The angle \<open>showDirection\<close> computes from the first two points.  Numbers are real numbers
  here; \<open>Math.sign(j) || 1\<close> is the sign of \<open>j\<close>, and 1 where that sign is zero.
\<close>

definition direction_angle :: "real \<times> real \<Rightarrow> real \<times> real \<Rightarrow> real" where
  "direction_angle firstPoint secondPoint =
     (let xAxis = (1, 0);
          baseVector = (fst secondPoint - fst firstPoint, snd secondPoint - snd firstPoint);
          baseVectorLength = vectorLength baseVector;
          cosinus = (if baseVectorLength \<noteq> 0
                     then scalarProduct xAxis baseVector / (vectorLength xAxis * baseVectorLength)
                     else 0)
      in (arccos cosinus * (if sgn (snd baseVector) \<noteq> 0 then sgn (snd baseVector) else 1) * 180) / pi)"

text \<open>
  \<open>showDirection\<close> reads the first two points of the state and the first two handle
  circles of the selected shape; with fewer than two points the second one is
  \<open>undefined\<close> and reading its coordinates is a \<open>TypeError\<close>.
\<close>

definition showDirection :: "ObjectState \<Rightarrow> view \<Rightarrow> view result" where
  "showDirection state v =
     (case points state of
        x0 # y0 # x1 # y1 # rest \<Rightarrow>
          Inr (emit (Dom (ShowDirection (clientID state) (direction_angle (x0, y0) (x1, y1)))) v)
      | _ \<Rightarrow> Inl TypeError)"

section \<open>Scene index: deletion, creation and patching of primitives\<close>

definition sortObjects :: "view \<Rightarrow> view" where
  "sortObjects v = emit (Dom SortObjects) v"

fun forEach :: "('a \<Rightarrow> view \<Rightarrow> view result) \<Rightarrow> 'a list \<Rightarrow> view \<Rightarrow> view result" where
  "forEach f [] v = Inr v"
| "forEach f (x # xs) v = (case f x v of Inl e \<Rightarrow> Inl e | Inr v' \<Rightarrow> forEach f xs v')"

text \<open>
  \<open>shape.fire('remove')\<close> runs the \<open>remove.drag\<close> or \<open>remove.resize\<close> listener that a
  gesture in progress has installed on the shape: it writes \<open>Mode.IDLE\<close> and releases the
  gesture library with a synthetic \<open>mouseup\<close>.  \<open>off('remove')\<close> and \<open>remove()\<close> follow, and
  the entry leaves \<open>svgShapes\<close>.
\<close>

definition remove_shape :: "nat \<Rightarrow> view \<Rightarrow> view" where
  "remove_shape cid v =
     (if cid \<in> svgShapes v
      then (let v1 = (if (cid, RemoveDrag) \<in> removeHooks v
                      then emit (Call Window_mouseup) (set_mode IDLE v) else v);
                v2 = (if (cid, RemoveResize) \<in> removeHooks v1
                      then set_mode IDLE (emit (Call Window_mouseup) v1) else v1)
            in emit (Dom (RemoveShape cid))
                 (v2\<lparr>svgShapes := svgShapes v2 - {cid},
                     removeHooks := removeHooks v2 - {(cid, RemoveDrag), (cid, RemoveResize)}\<rparr>))
      else v)"

definition drop_drawn :: "nat \<Rightarrow> view \<Rightarrow> view" where
  "drop_drawn cid v =
     (if map_of (drawnStates v) cid \<noteq> None
      then v\<lparr>drawnStates := AList.delete cid (drawnStates v)\<rparr> else v)"

fun deleteObject :: "ObjectState \<Rightarrow> view \<Rightarrow> view result"
  and deleteObjects :: "ObjectState list \<Rightarrow> view \<Rightarrow> view result" where
  "deleteObject (ObjectState cid st pts rot occ hid out lk pin z upd fr lid col gid gcol ats ds src els) v =
     (case (if cid \<in> svgTexts v then deleteText cid v else Inr v) of
        Inl x \<Rightarrow> Inl x
      | Inr v1 \<Rightarrow>
          (case (if st = ''skeleton'' then deleteObjects els v1 else Inr v1) of
             Inl x \<Rightarrow> Inl x
           | Inr v2 \<Rightarrow> Inr (drop_drawn cid (remove_shape cid v2))))"
| "deleteObjects [] v = Inr v"
| "deleteObjects (s # ss) v =
     (case deleteObject s v of Inl x \<Rightarrow> Inl x | Inr v' \<Rightarrow> deleteObjects ss v')"

definition drawable :: "string \<Rightarrow> bool" where
  "drawable t = (t = ''rectangle'' \<or> t = ''skeleton'' \<or> t = ''polygon'' \<or> t = ''polyline''
                 \<or> t = ''points'' \<or> t = ''ellipse'' \<or> t = ''cuboid'')"

text \<open>
  \<open>addSkeleton\<close> draws the group and one circle for each element of shape type
  \<open>points\<close>, which it stores in \<open>svgShapes\<close> under the element's identifier.
\<close>

fun addSkeleton_elements :: "nat \<Rightarrow> ObjectState list \<Rightarrow> view \<Rightarrow> view" where
  "addSkeleton_elements sid [] v = v"
| "addSkeleton_elements sid (e # es) v =
     addSkeleton_elements sid es
       (if shapeType e = ''points''
        then emit (Dom (AddElementShape sid (clientID e)))
               (v\<lparr>svgShapes := insert (clientID e) (svgShapes v)\<rparr>)
        else v)"

definition addSkeleton :: "ObjectState \<Rightarrow> view \<Rightarrow> view" where
  "addSkeleton state v =
     addSkeleton_elements (clientID state) (elements state)
       (emit (Dom (AddShape (clientID state) ''skeleton'')) v)"

definition store_text :: "ObjectState \<Rightarrow> view \<Rightarrow> view" where
  "store_text state v =
     (let v' = addText state v in v'\<lparr>svgTexts := insert (clientID state) (svgTexts v')\<rparr>)"

definition save_drawn :: "ObjectState \<Rightarrow> view \<Rightarrow> view" where
  "save_drawn state v =
     v\<lparr>drawnStates := AList.update (clientID state) (saveState state) (drawnStates v)\<rparr>"

definition addObject :: "bool \<Rightarrow> ObjectState \<Rightarrow> view \<Rightarrow> view result" where
  "addObject displayAll state v =
     (if \<not> drawable (shapeType state) then Inr v
      else
        (let cid = clientID state;
             v1 = (if shapeType state = ''skeleton'' then addSkeleton state v
                   else emit (Dom (AddShape cid (shapeType state))) v);
             v2 = v1\<lparr>svgShapes := insert cid (svgShapes v1)\<rparr>
         in and_then
              (if displayAll then updateTextPosition cid (store_text state v2) else Inr v2)
              (\<lambda>v3. Inr (save_drawn state v3))))"

definition addObjects :: "ObjectState list \<Rightarrow> view \<Rightarrow> view result" where
  "addObjects states v = forEach (addObject (displayAllText (configuration v))) states v"

section \<open>Activation\<close>

definition deactivateAttribute :: "view \<Rightarrow> view" where
  "deactivateAttribute v =
     (case (ae_clientID (activeElement v), ae_attributeID (activeElement v)) of
        (Some cid, Some aid) \<Rightarrow>
          (let v1 = (if cid \<in> svgTexts v
                     then emit (Dom (SetAttributeHighlight cid aid False)) v else v)
           in v1\<lparr>activeElement := (activeElement v1)\<lparr>ae_attributeID := None\<rparr>\<rparr>)
      | _ \<Rightarrow> v)"

definition strip_affordances :: "nat \<Rightarrow> DrawnState \<Rightarrow> view \<Rightarrow> view" where
  "strip_affordances cid drawnState v =
     (let v1 = emit (Dom (DeactivateShape cid)) v
      in if shapeType drawnState = ''cuboid'' then emit (Dom (SetProjections cid False)) v1 else v1)"

definition drop_label :: "nat \<Rightarrow> view \<Rightarrow> view result" where
  "drop_label cid v =
     (if cid \<in> svgTexts v \<and> \<not> displayAllText (configuration v) then deleteText cid v else Inr v)"

definition clear_active :: "view \<Rightarrow> view" where
  "clear_active v = v\<lparr>activeElement := (activeElement v)\<lparr>ae_clientID := None\<rparr>\<rparr>"

text \<open>
  \<open>deactivateShape\<close> reads \<open>this.svgShapes[clientID]\<close> and \<open>this.drawnStates[clientID]\<close> and
  calls methods on both: a \<open>TypeError\<close> when either entry is missing.
\<close>

definition deactivateShape :: "view \<Rightarrow> view result" where
  "deactivateShape v =
     (case ae_clientID (activeElement v) of
        None \<Rightarrow> Inr v
      | Some cid \<Rightarrow>
          if cid \<notin> svgShapes v then Inl TypeError
          else (case map_of (drawnStates v) cid of
                  None \<Rightarrow> Inl TypeError
                | Some drawnState \<Rightarrow>
                    and_then (drop_label cid (strip_affordances cid drawnState v))
                      (\<lambda>v3. Inr (clear_active (sortObjects v3)))))"

definition deactivate :: "view \<Rightarrow> view result" where
  "deactivate v = deactivateShape (deactivateAttribute v)"

definition activateAttribute :: "nat \<Rightarrow> nat \<Rightarrow> view \<Rightarrow> view" where
  "activateAttribute cid aid v =
     (if cid \<in> svgTexts v
      then (let v1 = emit (Dom (SetAttributeHighlight cid aid True)) v
            in v1\<lparr>activeElement := (activeElement v1)\<lparr>ae_attributeID := Some aid\<rparr>\<rparr>)
      else v)"

text \<open>
  \<open>activateShape\<close>.  The single effect \<open>ActivateShape\<close> stands for the affordances the
  source installs on the primitive: the activated and draggable classes, the drag and
  resize listeners and the selection handles.
\<close>

definition ensure_text :: "ObjectState \<Rightarrow> view \<Rightarrow> view" where
  "ensure_text state v = (if clientID state \<in> svgTexts v then v else store_text state v)"

definition install_affordances :: "ObjectState \<Rightarrow> view \<Rightarrow> view result" where
  "install_affordances state v =
     (let cid = clientID state
      in and_then (on_shape cid (ActivateShape cid) v) (\<lambda>v1.
           and_then
             (let v2 = (if shapeType state = ''cuboid'' \<and> showProjections (configuration v1)
                        then emit (Dom (SetProjections cid True)) v1 else v1)
              in if shapeType state = ''polygon'' \<or> shapeType state = ''polyline''
                 then showDirection state v2 else Inr v2)
             (\<lambda>v3. Inr (emit (Dispatch (Activated state)) v3))))"

definition set_pointer_events :: "ObjectState \<Rightarrow> view \<Rightarrow> view result" where
  "set_pointer_events state v =
     (if shapeType state = ''points''
      then on_shape (clientID state) (SetPointerEvents (clientID state) (stateIsLocked v state)) v
      else Inr v)"

definition activateShape :: "nat \<Rightarrow> view \<Rightarrow> view result" where
  "activateShape cid v =
     (case find_state cid (c_objects (controller v)) of
        None \<Rightarrow> Inr v
      | Some state \<Rightarrow>
          and_then (set_pointer_events state v) (\<lambda>v1.
            if hidden state \<or> outside state then Inr v1
            else and_then (updateTextPosition cid (ensure_text state v1)) (\<lambda>v2.
                   if stateIsLocked v2 state then Inr v2
                   else install_affordances state v2)))"

text \<open>The three steps of \<open>activate\<close>, in the order of the source.\<close>

definition release_previous :: "ActiveElement \<Rightarrow> view \<Rightarrow> view result" where
  "release_previous ae v =
     (case ae_clientID (activeElement v) of
        None \<Rightarrow> Inr v
      | Some cur \<Rightarrow>
          if Some cur \<noteq> ae_clientID ae then deactivate v
          else if ae_attributeID (activeElement v) \<noteq> ae_attributeID ae
               then Inr (deactivateAttribute v)
               else Inr v)"

definition claim_shape :: "ActiveElement \<Rightarrow> view \<Rightarrow> view result" where
  "claim_shape ae v =
     (case ae_clientID ae of
        None \<Rightarrow> Inr v
      | Some cid \<Rightarrow>
          if ae_clientID (activeElement v) \<noteq> Some cid
          then and_then (activateShape cid v)
                 (\<lambda>v'. Inr (v'\<lparr>activeElement := (activeElement v')\<lparr>ae_clientID := Some cid\<rparr>\<rparr>))
          else Inr v)"

definition claim_attribute :: "ActiveElement \<Rightarrow> view \<Rightarrow> view" where
  "claim_attribute ae v =
     (case ae_clientID ae of
        None \<Rightarrow> v
      | Some cid \<Rightarrow>
          (case ae_attributeID ae of
             None \<Rightarrow> v
           | Some aid \<Rightarrow>
               if ae_attributeID (activeElement v) \<noteq> Some aid then activateAttribute cid aid v
               else v))"

definition activate :: "ActiveElement \<Rightarrow> view \<Rightarrow> view result" where
  "activate ae v =
     and_then (release_previous ae v) (\<lambda>v1.
     and_then (claim_shape ae v1) (\<lambda>v2.
     Inr (claim_attribute ae v2)))"

section \<open>Patching a drawn object in place\<close>

text \<open>
  The label part of \<open>updateObjects\<close>: a changed label or description list rebuilds the label
  primitive when the object had one at the start of the iteration; otherwise each changed
  attribute value is patched into the label.
\<close>

definition patch_text :: "ObjectState \<Rightarrow> DrawnState \<Rightarrow> bool \<Rightarrow> view \<Rightarrow> view" where
  "patch_text state drawnState hadText v =
     (let cid = clientID state in
      if label_id drawnState \<noteq> label_id state \<or> descriptions drawnState \<noteq> descriptions state
      then (if hadText then store_text state (emit (Dom (RemoveText cid)) v) else v)
      else fold (\<lambda>k w.
                  if map_of (attributes state) k \<noteq> map_of (attributes drawnState) k \<and> hadText
                  then emit (Dom (PatchAttributeText cid k
                          (case map_of (attributes state) k of Some x \<Rightarrow> x | None \<Rightarrow> []))) w
                  else w)
             (object_keys (attributes state)) v)"

definition patch_visibility :: "ObjectState \<Rightarrow> DrawnState \<Rightarrow> bool \<Rightarrow> view \<Rightarrow> view result" where
  "patch_visibility state drawnState hadText v =
     (let cid = clientID state;
          isInvisible = (hidden state \<or> outside state \<or> isInnerHidden v cid)
      in if hidden drawnState \<noteq> hidden state \<or> outside drawnState \<noteq> outside state
         then and_then (on_shape cid (SetHiddenClass cid isInvisible) v)
                (\<lambda>w. if hadText
                      then (if isInvisible then Inr (emit (Dom (SetTextHiddenClass cid True)) w)
                            else updateTextPosition cid (emit (Dom (SetTextHiddenClass cid False)) w))
                      else Inr w)
         else Inr v)"

definition deactivate_activate :: "view \<Rightarrow> view result" where
  "deactivate_activate v = and_then (deactivate v) (activate (activeElement v))"

definition patch_attr :: "bool \<Rightarrow> nat \<Rightarrow> dom_op \<Rightarrow> view \<Rightarrow> view result" where
  "patch_attr differs cid op v = (if differs then on_shape cid op v else Inr v)"

definition patch_pinned :: "ObjectState \<Rightarrow> DrawnState \<Rightarrow> view \<Rightarrow> view result" where
  "patch_pinned state drawnState v =
     (if pinned drawnState \<noteq> pinned state \<and> ae_clientID (activeElement v) \<noteq> None
      then deactivate_activate v else Inr v)"

text \<open>
  Stored rotation is undone first, changed points are written, then the rotation of the
  incoming state is applied.
\<close>

definition patch_geometry :: "ObjectState \<Rightarrow> DrawnState \<Rightarrow> view \<Rightarrow> view result" where
  "patch_geometry state drawnState v =
     (let cid = clientID state
      in and_then (patch_attr (rotation drawnState \<noteq> 0) cid (Untransform cid) v) (\<lambda>v1.
         and_then (patch_attr (points state \<noteq> points drawnState) cid
                     (SetGeometry cid (translateToCanvas (c_offset (controller v1)) (points state))) v1)
           (\<lambda>v2. patch_attr (rotation state \<noteq> 0) cid (Rotate cid (rotation state)) v2)))"

definition patch_color :: "ObjectState \<Rightarrow> DrawnState \<Rightarrow> view \<Rightarrow> view result" where
  "patch_color state drawnState v =
     (let cid = clientID state;
          v1 = (if (label_id drawnState \<noteq> label_id state \<or> color drawnState \<noteq> color state)
                   \<and> cid \<in> svgShapes v
                then emit (Dom (SetColor cid)) v else v)
      in patch_attr (group_id drawnState \<noteq> group_id state
                      \<or> group_color drawnState \<noteq> group_color state) cid (SetColor cid) v1)"

text \<open>
  One iteration of \<open>updateObjects\<close>.  \<open>this.drawnStates[clientID]\<close> is read without a
  check, so a missing entry is a \<open>TypeError\<close>.  Whether the object has a label is read once,
  at the start of the iteration.
\<close>

definition updateObject :: "ObjectState \<Rightarrow> view \<Rightarrow> view result" where
  "updateObject state v =
     (let cid = clientID state; hadText = (cid \<in> svgTexts v) in
      case map_of (drawnStates v) cid of
        None \<Rightarrow> Inl TypeError
      | Some drawnState \<Rightarrow>
          and_then (patch_visibility state drawnState hadText v) (\<lambda>v1.
          and_then (patch_attr (zOrder drawnState \<noteq> zOrder state) cid
                      (SetZOrderAttr cid (zOrder state)) v1) (\<lambda>v2.
          and_then (patch_attr (occluded drawnState \<noteq> occluded state) cid
                      (SetOccludedClass cid (occluded state)) v2) (\<lambda>v3.
          and_then (patch_pinned state drawnState v3) (\<lambda>v4.
          and_then (patch_geometry state drawnState v4) (\<lambda>v5.
          and_then (patch_color state drawnState (patch_text state drawnState hadText v5)) (\<lambda>v6.
          Inr (save_drawn state v6))))))))"

definition updateObjects :: "ObjectState list \<Rightarrow> view \<Rightarrow> view result" where
  "updateObjects states v = forEach updateObject states v"

section \<open>Reconciliation\<close>

text \<open>The three lists \<open>setupObjects\<close> computes before it touches anything.\<close>

definition created_of :: "view \<Rightarrow> ObjectState list \<Rightarrow> ObjectState list" where
  "created_of v states = filter (\<lambda>s. map_of (drawnStates v) (clientID s) = None) states"

definition updated_of :: "view \<Rightarrow> ObjectState list \<Rightarrow> ObjectState list" where
  "updated_of v states =
     filter (\<lambda>s. case map_of (drawnStates v) (clientID s) of
                   None \<Rightarrow> False
                 | Some drawnState \<Rightarrow> updated drawnState \<noteq> updated s \<or> frame drawnState \<noteq> frame s)
       states"

definition deleted_of :: "view \<Rightarrow> ObjectState list \<Rightarrow> DrawnState list" where
  "deleted_of v states =
     List.map_filter (map_of (drawnStates v))
       (filter (\<lambda>k. k \<notin> set (map clientID states)) (object_keys (drawnStates v)))"

definition reactivate :: "ObjectState list \<Rightarrow> view \<Rightarrow> view result" where
  "reactivate states v =
     (case ae_clientID (c_activeElement (controller v)) of
        None \<Rightarrow> Inr v
      | Some cid \<Rightarrow>
          if cid \<in> set (map clientID states) then activate (c_activeElement (controller v)) v
          else Inr v)"

definition setupObjects :: "ObjectState list \<Rightarrow> view \<Rightarrow> view result" where
  "setupObjects states v =
     (let created = created_of v states;
          updated = updated_of v states;
          deleted = deleted_of v states
      in if deleted \<noteq> [] \<or> updated \<noteq> [] \<or> created \<noteq> []
         then
           and_then (if ae_clientID (activeElement v) \<noteq> None then deactivate v else Inr v) (\<lambda>v1.
           and_then (deleteObjects deleted v1) (\<lambda>v2.
           and_then (addObjects created v2) (\<lambda>v3.
           (let updatedSkeletons = filter (\<lambda>s. shapeType s = ''skeleton'') updated;
                updatedNotSkeletons = filter (\<lambda>s. shapeType s \<noteq> ''skeleton'') updated
            in and_then (updateObjects updatedNotSkeletons v3) (\<lambda>v4.
               and_then (deleteObjects updatedSkeletons v4) (\<lambda>v5.
               and_then (addObjects updatedSkeletons v5) (\<lambda>v6.
               and_then (reactivate states (sortObjects v6)) (\<lambda>v7.
               Inr (emit (Call AutoborderHandler_updateObjects) v7)))))))))
         else Inr v)"

section \<open>Completion callbacks\<close>

definition setupInnerFlags :: "nat \<Rightarrow> bool \<Rightarrow> view \<Rightarrow> view result" where
  "setupInnerFlags cid val v =
     (let shape = (cid \<in> svgShapes v);
          text = (cid \<in> svgTexts v);
          state = map_of (drawnStates v) cid
      in if val
         then (let v0 = v\<lparr>drawHidden := (if cid \<in> set (drawHidden v) then drawHidden v
                                           else insort cid (drawHidden v))\<rparr>
               in and_then
                    (if shape
                     then (case state of
                             None \<Rightarrow> Inl TypeError
                           | Some st \<Rightarrow> Inr (emit (Dom (SetHiddenClass cid True)) v0))
                     else Inr v0)
                    (\<lambda>v1. Inr (if text then emit (Dom (SetTextHiddenClass cid True)) v1 else v1)))
         else (let v0 = v\<lparr>drawHidden := removeAll cid (drawHidden v)\<rparr>
               in case state of
                    None \<Rightarrow> Inr v0
                  | Some st \<Rightarrow>
                      if \<not> outside st \<and> \<not> hidden st
                      then (let v1 = (if shape then emit (Dom (SetHiddenClass cid False)) v0 else v0)
                            in if text
                               then updateTextPosition cid (emit (Dom (SetTextHiddenClass cid False)) v1)
                               else Inr v1)
                      else Inr v0))"

definition onEditDone :: "ObjectState option \<Rightarrow> real list option \<Rightarrow> real option \<Rightarrow> view \<Rightarrow> view" where
  "onEditDone state pts rot v =
     set_mode IDLE
       (case state of
          None \<Rightarrow> emit (Dispatch Canceled) v
        | Some s \<Rightarrow>
            (case pts of
               None \<Rightarrow> emit (Dispatch Canceled) v
             | Some p \<Rightarrow>
                 emit (Dispatch (Edited s p (case rot of Some r \<Rightarrow> r | None \<Rightarrow> rotation s))) v))"

text \<open>\<open>data.points || elements.map((el) => el.points).flat()\<close>\<close>

definition draw_points :: "DrawResult \<Rightarrow> real list result" where
  "draw_points d =
     (case dr_points d of
        Some p \<Rightarrow> Inr p
      | None \<Rightarrow> (case dr_elements d of Some els \<Rightarrow> Inr (concat els) | None \<Rightarrow> Inl TypeError))"

definition finish_draw :: "bool option \<Rightarrow> view \<Rightarrow> view" where
  "finish_draw continueDraw v =
     (if continueDraw \<noteq> Some True
      then emit (Call (Controller_draw False)) (set_mode IDLE v) else v)"

definition onDrawDone :: "DrawResult option \<Rightarrow> real \<Rightarrow> bool option \<Rightarrow> view \<Rightarrow> view result" where
  "onDrawDone data duration continueDraw v =
     and_then (forEach (\<lambda>h. setupInnerFlags h False) (drawHidden v) v) (\<lambda>v1.
       case data of
         Some d \<Rightarrow>
           and_then (draw_points d) (\<lambda>pts.
             case dr_clientID d of
               Some cid \<Rightarrow>
                 Inr (onEditDone (find_state cid (c_objects (controller v1))) (Some pts) None
                        (emit (Dispatch Canceled) v1))
             | None \<Rightarrow>
                 Inr (finish_draw continueDraw
                        (emit (Dispatch (Drawn d
                                 (case c_zLayer (controller v1) of Some z \<Rightarrow> z | None \<Rightarrow> 0)
                                 continueDraw duration)) v1)))
       | None \<Rightarrow>
           Inr (finish_draw continueDraw
                  (if continueDraw \<noteq> Some True then emit (Dispatch Canceled) v1 else v1)))"

section \<open>Drag and resize gestures of an activated shape\<close>

text \<open>
  The listeners \<open>activateShape\<close> installs on a shape, and the \<open>resizedone\<close> listener of the
  wrapping rectangle of a skeleton.  What a listener reads from the primitive (its points,
  its rotation, the points mapped back by \<open>translatePointsFromRotatedShape\<close>) is an
  argument here.
\<close>

text \<open>
  Modelled from the spec: \<open>translateFromCanvas\<close> is imported from \<open>shared.ts\<close>, which is not
  part of the reviewed source; the spec describes it as removing the fixed offset
  translation.
\<close>

definition translateFromCanvas :: "real \<Rightarrow> real list \<Rightarrow> real list" where
  "translateFromCanvas off ps = map (\<lambda>p. p - off) ps"

fun set_points :: "real list \<Rightarrow> ObjectState \<Rightarrow> ObjectState" where
  "set_points p (ObjectState cid st pts rot occ hid out lk pin z upd fr lid col gid gcol ats ds src els) =
     ObjectState cid st p rot occ hid out lk pin z upd fr lid col gid gcol ats ds src els"

fun set_rotation :: "real \<Rightarrow> ObjectState \<Rightarrow> ObjectState" where
  "set_rotation r (ObjectState cid st pts rot occ hid out lk pin z upd fr lid col gid gcol ats ds src els) =
     ObjectState cid st pts r occ hid out lk pin z upd fr lid col gid gcol ats ds src els"

text \<open>
  Numbers of the language are doubles.  The model keeps them as real numbers and takes the
  one rounded operation that the normalisation of a rotation uses as an argument:
  \<open>add a b\<close> stands for \<open>a + b\<close> as the number type computes it, the double nearest to
  the sum.  With \<open>add = (+)\<close> the arithmetic is exact; an addition that rounds may return 360
  for a tiny negative rotation, and may return its first argument for a huge one.
\<close>

type_synonym addition = "real \<Rightarrow> real \<Rightarrow> real"

text \<open>
  \<open>while (rotation < 0) rotation += 360;\<close>  The loop need not end: the result is \<open>None\<close>
  when it does not.
\<close>

partial_function (option) normalize_loop :: "addition \<Rightarrow> real \<Rightarrow> real option" where
  "normalize_loop add r = (if r < 0 then normalize_loop add (add r 360) else Some r)"

text \<open>
  The remainder operator of the language on numbers: the result has the sign of the
  dividend.  It is exact on doubles, so it needs no rounding.
\<close>

definition js_rem :: "real \<Rightarrow> real \<Rightarrow> real" where
  "js_rem a b = a - b * of_int (if a / b < 0 then \<lceil>a / b\<rceil> else \<lfloor>a / b\<rfloor>)"

text \<open>\<open>while (rotation < 0) rotation += 360; rotation %= 360;\<close>\<close>

definition normalize_rotation :: "addition \<Rightarrow> real \<Rightarrow> real option" where
  "normalize_rotation add r = map_option (\<lambda>x. js_rem x 360) (normalize_loop add r)"

text \<open>
  The rotation the \<open>resizedone\<close> listener of a shape reports:
  \<open>let rotation = shape.transform().rotation || 0; while (rotation < 0) rotation += 360;
  rotation %= 360;\<close>
\<close>

definition resize_rotation :: "addition \<Rightarrow> real \<Rightarrow> real option" where
  "resize_rotation add shapeRotation =
     normalize_rotation add (if shapeRotation \<noteq> 0 then shapeRotation else 0)"

definition on_dragstart :: "nat \<Rightarrow> view \<Rightarrow> view" where
  "on_dragstart cid v =
     (let v1 = emit (Dom (SetTextHiddenClass cid True)) (set_mode DRAG v)
      in v1\<lparr>removeHooks := insert (cid, RemoveDrag) (removeHooks v1)\<rparr>)"

definition on_dragend ::
  "nat \<Rightarrow> ObjectState \<Rightarrow> real \<times> real \<Rightarrow> real \<times> real \<Rightarrow> real list \<Rightarrow> real \<Rightarrow> real list result
     \<Rightarrow> view \<Rightarrow> view result" where
  "on_dragend cid state p1 p2 shapePoints shapeRotation unrotated v =
     (let off = c_offset (controller v);
          v1 = set_mode IDLE (v\<lparr>removeHooks := removeHooks v - {(cid, RemoveDrag)}\<rparr>)
      in and_then (updateTextPosition cid (emit (Dom (SetTextHiddenClass cid False)) v1)) (\<lambda>v2.
           if sqrt ((fst p1 - fst p2)\<^sup>2 + (snd p1 - snd p2)\<^sup>2) \<ge> 1
           then (case map_of (drawnStates v2) cid of
                   None \<Rightarrow> Inl TypeError
                 | Some d \<Rightarrow>
                     (let v3 = v2\<lparr>drawnStates :=
                                 AList.update cid (set_points (translateFromCanvas off shapePoints) d)
                                   (drawnStates v2)\<rparr>
                      in and_then (if shapeRotation \<noteq> 0 then unrotated else Inr shapePoints) (\<lambda>pts.
                           Inr (emit (Dispatch (DragShape (clientID state)))
                                  (onEditDone (Some state) (Some (translateFromCanvas off pts)) None v3)))))
           else Inr v2))"

definition on_resizestart :: "nat \<Rightarrow> view \<Rightarrow> view" where
  "on_resizestart cid v =
     (let v1 = emit (Dom (SetTextHiddenClass cid True)) (set_mode RESIZE v)
      in v1\<lparr>removeHooks := insert (cid, RemoveResize) (removeHooks v1)\<rparr>)"

text \<open>
  The \<open>resizedone\<close> listener of a shape.  The result is \<open>None\<close> when the normalisation of
  the rotation does not end.
\<close>

definition on_resizedone ::
  "addition \<Rightarrow> nat \<Rightarrow> ObjectState \<Rightarrow> bool \<Rightarrow> real list \<Rightarrow> real \<Rightarrow> real list result \<Rightarrow> view
     \<Rightarrow> view result option" where
  "on_resizedone add cid state resized shapePoints shapeRotation unrotated v =
     (let off = c_offset (controller v);
          v1 = set_mode IDLE (v\<lparr>removeHooks := removeHooks v - {(cid, RemoveResize)}\<rparr>)
      in case and_then (if shapeType state = ''polygon'' \<or> shapeType state = ''polyline''
                        then showDirection state v1 else Inr v1)
                (\<lambda>v2. updateTextPosition cid (emit (Dom (SetTextHiddenClass cid False)) v2)) of
           Inl e \<Rightarrow> Some (Inl e)
         | Inr v3 \<Rightarrow>
             if resized
             then (case resize_rotation add shapeRotation of
                     None \<Rightarrow> None
                   | Some rot \<Rightarrow>
                       Some (case map_of (drawnStates v3) cid of
                               None \<Rightarrow> Inl TypeError
                             | Some d \<Rightarrow>
                                 (let v4 = v3\<lparr>drawnStates :=
                                             AList.update cid
                                               (set_rotation rot
                                                  (set_points (translateFromCanvas off shapePoints) d))
                                               (drawnStates v3)\<rparr>
                                  in and_then (if rot \<noteq> 0 then unrotated else Inr shapePoints) (\<lambda>pts.
                                       Inr (emit (Dispatch (ResizeShape (clientID state)))
                                              (onEditDone (Some state)
                                                 (Some (translateFromCanvas off pts)) (Some rot) v4))))))
             else Some (Inr v3))"

text \<open>
  The \<open>resizedone\<close> listener of the wrapping rectangle of a skeleton.  \<open>textList\<close> holds the
  identifiers of the labels the handler captured when it was installed (the skeleton's
  and its elements'), \<open>skeletonRotation\<close> is \<open>skeleton.transform().rotation\<close>, and
  \<open>elementPoints\<close> gives, for each element that has a child shape in the group, the points
  read from that shape.  The listeners of the wrapping rectangle are not entries of
  \<open>svgShapes\<close>, so \<open>removeHooks\<close> is left alone.
\<close>

definition show_texts :: "nat list \<Rightarrow> view \<Rightarrow> view result" where
  "show_texts textList v =
     forEach (\<lambda>cid w. updateTextPosition cid (emit (Dom (SetTextHiddenClass cid False)) w))
       textList v"

definition skeleton_points :: "real \<Rightarrow> (nat \<times> real list) list \<Rightarrow> ObjectState \<Rightarrow> real list" where
  "skeleton_points off elementPoints state =
     concat (List.map_filter
               (\<lambda>e. map_option (translateFromCanvas off) (map_of elementPoints (clientID e)))
               (elements state))"

definition on_skeleton_resizedone ::
  "addition \<Rightarrow> ObjectState \<Rightarrow> nat list \<Rightarrow> bool \<Rightarrow> real \<Rightarrow> (nat \<times> real list) list \<Rightarrow> view
     \<Rightarrow> view result option" where
  "on_skeleton_resizedone add state textList resized skeletonRotation elementPoints v =
     (case normalize_rotation add skeletonRotation of
        None \<Rightarrow> None
      | Some rot \<Rightarrow>
          Some (and_then (show_texts textList v) (\<lambda>v1.
                  (let v2 = set_mode IDLE v1
                   in if resized
                      then Inr (emit (Dispatch (ResizeShape (clientID state)))
                                  (onEditDone (Some state)
                                     (Some (if rot \<noteq> 0 then points state
                                            else skeleton_points (c_offset (controller v2))
                                                   elementPoints state))
                                     (Some rot) v2))
                      else Inr v2))))"

section \<open>Update notifications\<close>

datatype UpdateReasons =
    IMAGE_CHANGED | IMAGE_ZOOMED | IMAGE_FITTED | IMAGE_MOVED | GRID_UPDATED
  | ISSUE_REGIONS_UPDATED | OBJECTS_UPDATED | SHAPE_ACTIVATED | SHAPE_FOCUSED
  | FITTED_CANVAS | INTERACT | DRAW | MERGE | SPLIT | GROUP | SELECT | CANCEL | BITMAP
  | SELECT_REGION | DRAG_CANVAS | ZOOM_CANVAS | CONFIG_UPDATED | DATA_FAILED | DESTROY

text \<open>
  \<open>moveCanvas\<close>, \<open>resizeCanvas\<close>, \<open>transformCanvas\<close>, \<open>redrawBitmap\<close>, \<open>setupIssueRegions\<close>,
  \<open>onFocusRegion\<close> and the image and grid branches of \<open>notify\<close> move, scale and restyle the
  surface; each is one \<open>Repaint\<close> effect here.
\<close>

definition repaint :: "string \<Rightarrow> view \<Rightarrow> view" where
  "repaint what v = emit (Dom (Repaint what)) v"

definition store_text_at :: "nat \<Rightarrow> ObjectState \<Rightarrow> view \<Rightarrow> view" where
  "store_text_at k state v = (let v' = addText state v in v'\<lparr>svgTexts := insert k (svgTexts v')\<rparr>)"

definition config_updated :: "view \<Rightarrow> view result" where
  "config_updated v =
     (let ae = activeElement v;
          conf = c_configuration (controller v);
          old = configuration v
      in and_then (deactivate v) (\<lambda>v1.
         (let v2 = (if appearance conf \<noteq> appearance old then repaint ''updateShapeViews'' v1 else v1)
          in and_then
               (if displayAllText conf \<and> \<not> displayAllText old
                then Inr (fold (\<lambda>i w. if i \<in> svgTexts w then w
                                       else (case map_of (drawnStates w) i of
                                               Some d \<Rightarrow> store_text_at i d w
                                             | None \<Rightarrow> w))
                            (object_keys (drawnStates v2)) v2)
                else if \<not> displayAllText conf \<and> displayAllText old
                then forEach (\<lambda>i w. if Some i \<noteq> ae_clientID ae then deleteText i w else Inr w)
                       (object_keys (drawnStates v2)) v2
                else Inr v2) (\<lambda>v3.
               (let recreateText = (textContent conf \<noteq> textContent old);
                    updatePosition = (displayAllText conf \<noteq> displayAllText old
                                      \<or> textLayout conf \<noteq> textLayout old \<or> recreateText);
                    v4 = v3\<lparr>configuration := conf\<rparr>
                in and_then
                     (if recreateText
                      then forEach
                             (\<lambda>k w. if k \<in> svgTexts w
                                    then and_then (deleteText k w) (\<lambda>w'.
                                           Inr (case find_state k (c_objects (controller w')) of
                                                  Some st \<Rightarrow> store_text_at k st w'
                                                | None \<Rightarrow> w'))
                                    else Inr w)
                             (object_keys (drawnStates v4)) v4
                      else Inr v4) (\<lambda>v5.
                   and_then
                     (if updatePosition
                      then forEach (\<lambda>i w. if i \<in> svgTexts w then updateTextPosition i w else Inr w)
                             (object_keys (drawnStates v5)) v5
                      else Inr v5) (\<lambda>v6.
                   and_then (activate ae v6) (\<lambda>v7.
                     Inr (repaint ''transformCanvas'' (emit (Call Handlers_configurate) v7))))))))))"

definition notify_cancel :: "view \<Rightarrow> view" where
  "notify_cancel v =
     (let v1 =
        (if mode v = Mode.DRAW then emit (Call DrawHandler_cancel) v
         else if mode v = Mode.INTERACT then emit (Call InteractionHandler_cancel) v
         else if mode v = Mode.MERGE then emit (Call MergeHandler_cancel) v
         else if mode v = Mode.SPLIT then emit (Call SplitHandler_cancel) v
         else if mode v = Mode.GROUP then emit (Call GroupHandler_cancel) v
         else if mode v = Mode.SELECT_REGION then emit (Call RegionSelector_cancel) v
         else if mode v = Mode.EDIT then emit (Call EditHandler_cancel) v
         else if mode v = Mode.DRAG_CANVAS then emit (Dispatch DragStop) v
         else if mode v = Mode.ZOOM_CANVAS
              then emit (Dispatch ZoomStop) (emit (Call ZoomHandler_cancel) v)
         else v)
      in (set_mode Mode.IDLE v1)\<lparr>cursor := []\<rparr>)"

definition notify_draw :: "view \<Rightarrow> view result" where
  "notify_draw v =
     (let data = c_drawData (controller v)
      in if dd_enabled data \<and> mode v = Mode.IDLE
         then and_then
                (case dd_redraw data of
                   Some r \<Rightarrow> setupInnerFlags r True (set_mode Mode.DRAW (v\<lparr>cursor := ''crosshair''\<rparr>))
                 | None \<Rightarrow> Inr (set_mode Mode.DRAW (v\<lparr>cursor := ''crosshair''\<rparr>)))
                (\<lambda>v1. Inr (emit (Call (DrawHandler_draw data)) v1))
         else (let v1 = v\<lparr>cursor := []\<rparr>
               in Inr (if mode v1 \<noteq> Mode.IDLE then emit (Call (DrawHandler_draw data)) v1 else v1)))"

definition notify_interact :: "view \<Rightarrow> view" where
  "notify_interact v =
     (let data = c_interactionData (controller v)
      in if id_enabled data \<and> (mode v = Mode.IDLE \<or> id_intermediateShape data)
         then (let v1 = (if \<not> id_intermediateShape data
                         then set_mode Mode.INTERACT (v\<lparr>cursor := ''crosshair''\<rparr>) else v)
               in emit (Call (InteractionHandler_interact data)) v1)
         else (let v1 = (if \<not> id_enabled data then v\<lparr>cursor := []\<rparr> else v)
               in if mode v1 \<noteq> Mode.IDLE then emit (Call (InteractionHandler_interact data)) v1
                  else v1))"

text \<open>The default cursor, \<open>''\<close> in the source, is the empty string \<open>[]\<close>.\<close>

definition notify :: "UpdateReasons \<Rightarrow> view \<Rightarrow> view result" where
  "notify reason v =
     and_then
       (case reason of
          CONFIG_UPDATED \<Rightarrow> config_updated v
        | BITMAP \<Rightarrow> Inr (repaint ''bitmap'' v)
        | IMAGE_CHANGED \<Rightarrow> Inr (repaint ''image'' v)
        | FITTED_CANVAS \<Rightarrow>
            and_then (setupObjects [] v) (\<lambda>v1.
              Inr (emit (Dispatch Reshape) (repaint ''fitted canvas'' v1)))
        | IMAGE_ZOOMED \<Rightarrow> Inr (repaint ''moveCanvas transformCanvas'' v)
        | IMAGE_FITTED \<Rightarrow> Inr (emit (Dispatch Fit) (repaint ''moveCanvas transformCanvas'' v))
        | IMAGE_MOVED \<Rightarrow> Inr (repaint ''moveCanvas'' v)
        | OBJECTS_UPDATED \<Rightarrow>
            and_then
              (setupObjects (c_objects (controller v))
                 (if mode v = Mode.GROUP then emit (Call GroupHandler_resetSelectedObjects) v else v))
              (\<lambda>v1. Inr (emit (Dispatch CanvasSetup)
                           (if mode v1 = Mode.MERGE
                            then emit (Call MergeHandler_repeatSelection) v1 else v1)))
        | ISSUE_REGIONS_UPDATED \<Rightarrow> Inr (repaint ''issue regions'' v)
        | GRID_UPDATED \<Rightarrow> Inr (repaint ''grid'' v)
        | SHAPE_FOCUSED \<Rightarrow> Inr (repaint ''focus'' v)
        | SHAPE_ACTIVATED \<Rightarrow> activate (c_activeElement (controller v)) v
        | UpdateReasons.SELECT_REGION \<Rightarrow>
            Inr (if mode v = Mode.SELECT_REGION
                 then (emit (Call (RegionSelector_select True)) v)\<lparr>cursor := ''pointer''\<rparr>
                 else emit (Call (RegionSelector_select False)) v)
        | UpdateReasons.DRAG_CANVAS \<Rightarrow>
            Inr (if mode v = Mode.DRAG_CANVAS
                 then (emit (Dispatch DragStart) v)\<lparr>cursor := ''move''\<rparr>
                 else (emit (Dispatch DragStop) v)\<lparr>cursor := []\<rparr>)
        | UpdateReasons.ZOOM_CANVAS \<Rightarrow>
            Inr (if mode v = Mode.ZOOM_CANVAS
                 then emit (Call ZoomHandler_zoom) ((emit (Dispatch ZoomStart) v)\<lparr>cursor := ''zoom-in''\<rparr>)
                 else emit (Call ZoomHandler_cancel) ((emit (Dispatch ZoomStop) v)\<lparr>cursor := []\<rparr>))
        | UpdateReasons.DRAW \<Rightarrow> notify_draw v
        | UpdateReasons.INTERACT \<Rightarrow> Inr (notify_interact v)
        | UpdateReasons.MERGE \<Rightarrow>
            Inr (emit (Call (MergeHandler_merge (c_mergeData (controller v))))
                   (if c_mergeData (controller v)
                    then set_mode Mode.MERGE (v\<lparr>cursor := ''copy''\<rparr>) else v\<lparr>cursor := []\<rparr>))
        | UpdateReasons.SPLIT \<Rightarrow>
            Inr (emit (Call (SplitHandler_split (c_splitData (controller v))))
                   (if c_splitData (controller v)
                    then set_mode Mode.SPLIT (v\<lparr>cursor := ''copy''\<rparr>) else v\<lparr>cursor := []\<rparr>))
        | UpdateReasons.GROUP \<Rightarrow>
            Inr (emit (Call (GroupHandler_group (c_groupData (controller v))))
                   (if c_groupData (controller v)
                    then set_mode Mode.GROUP (v\<lparr>cursor := ''copy''\<rparr>) else v\<lparr>cursor := []\<rparr>))
        | SELECT \<Rightarrow>
            Inr (if mode v = Mode.MERGE then emit (Call MergeHandler_select) v
                 else if mode v = Mode.SPLIT then emit (Call SplitHandler_select) v
                 else if mode v = Mode.GROUP then emit (Call GroupHandler_select) v
                 else v)
        | CANCEL \<Rightarrow> Inr (notify_cancel v)
        | DATA_FAILED \<Rightarrow> Inr (emit (Dispatch CanvasError) v)
        | DESTROY \<Rightarrow> Inr (emit (Call InteractionHandler_destroy) (emit (Dispatch Destroy) v)))
       (\<lambda>v'. Inr (if c_imageBitmap (controller v') \<and> (reason = IMAGE_CHANGED \<or> reason = OBJECTS_UPDATED)
                  then repaint ''redrawBitmap'' v' else v'))"

section \<open>Initial state and observations on a run\<close>

text \<open>The state the constructor leaves: empty dictionaries, nothing active, mode \<open>IDLE\<close>.\<close>

definition constructed :: "Controller \<Rightarrow> view" where
  "constructed c =
     \<lparr>controller = c\<lparr>c_mode := IDLE\<rparr>, cursor = [], svgShapes = {}, svgTexts = {},
      drawnStates = [], activeElement = \<lparr>ae_clientID = None, ae_attributeID = None\<rparr>,
      configuration = c_configuration c, drawHidden = [], removeHooks = {}, trace = []\<rparr>"

definition default_configuration :: Configuration where
  "default_configuration =
     \<lparr>displayAllText = False, forceDisableEditing = False, showProjections = False,
      textContent = ''id,label'', textLayout = ''auto'', appearance = ''Label''\<rparr>"

definition controller_with :: "ObjectState list \<Rightarrow> Controller" where
  "controller_with objs =
     \<lparr>c_mode = IDLE, c_objects = objs,
      c_activeElement = \<lparr>ae_clientID = None, ae_attributeID = None\<rparr>,
      c_configuration = default_configuration, c_offset = 0, c_zLayer = None,
      c_drawData = \<lparr>dd_enabled = False, dd_redraw = None\<rparr>,
      c_interactionData = \<lparr>id_enabled = False, id_intermediateShape = False\<rparr>,
      c_mergeData = False, c_splitData = False, c_groupData = False, c_imageBitmap = False\<rparr>"

text \<open>A plain object of the given identifier, shape type, points and version.\<close>

definition plain_object :: "nat \<Rightarrow> string \<Rightarrow> real list \<Rightarrow> nat \<Rightarrow> ObjectState" where
  "plain_object cid st pts upd =
     ObjectState cid st pts 0 False False False False False 0 upd 0 1 ''#ff0000'' 0 ''#000000''
       [] [] ''manual'' []"

text \<open>What a call appended to the trace, and the events and handler calls among it.\<close>

definition new_effects :: "view \<Rightarrow> view \<Rightarrow> effect list" where
  "new_effects v v' = drop (length (trace v)) (trace v')"

fun dispatched :: "effect list \<Rightarrow> event list" where
  "dispatched [] = []"
| "dispatched (Dispatch e # es) = e # dispatched es"
| "dispatched (x # es) = dispatched es"

fun calls_made :: "effect list \<Rightarrow> call list" where
  "calls_made [] = []"
| "calls_made (Call c # es) = c # calls_made es"
| "calls_made (x # es) = calls_made es"

fun is_dom :: "effect \<Rightarrow> bool" where
  "is_dom (Dom op) = True"
| "is_dom x = False"

text \<open>Effects that create or delete a shape primitive.\<close>

fun shape_change :: "effect \<Rightarrow> bool" where
  "shape_change (Dom (AddShape cid st)) = True"
| "shape_change (Dom (AddElementShape sid cid)) = True"
| "shape_change (Dom (RemoveShape cid)) = True"
| "shape_change x = False"

text \<open>Effects of a shape activation: the affordances and the \<open>canvas.activated\<close> event.\<close>

fun shape_activation :: "effect \<Rightarrow> bool" where
  "shape_activation (Dom (ActivateShape cid)) = True"
| "shape_activation (Dispatch (Activated s)) = True"
| "shape_activation x = False"

text \<open>Effects on label primitives.\<close>

fun label_op :: "effect \<Rightarrow> bool" where
  "label_op (Dom (AddText cid)) = True"
| "label_op (Dom (RemoveText cid)) = True"
| "label_op (Dom (UpdateTextPosition cid)) = True"
| "label_op (Dom (SetTextHiddenClass cid b)) = True"
| "label_op x = False"

text \<open>Effects of stripping the affordances of the active element.\<close>

fun strip_op :: "effect \<Rightarrow> bool" where
  "strip_op (Dom (DeactivateShape cid)) = True"
| "strip_op (Dom (SetProjections cid b)) = True"
| "strip_op (Dom (SetAttributeHighlight cid aid b)) = True"
| "strip_op (Dom SortObjects) = True"
| "strip_op x = label_op x"

text \<open>A step that changes nothing but the label dictionary and the trace.\<close>

definition label_step :: "view \<Rightarrow> view \<Rightarrow> bool" where
  "label_step v v' \<longleftrightarrow>
     (\<exists>T es. v' = v\<lparr>svgTexts := T, trace := trace v @ es\<rparr> \<and> list_all label_op es)"

definition soft_step :: "(effect \<Rightarrow> bool) \<Rightarrow> view \<Rightarrow> view \<Rightarrow> bool" where
  "soft_step P v v' \<longleftrightarrow>
     controller v' = controller v \<and> cursor v' = cursor v \<and> svgShapes v' = svgShapes v \<and>
     drawnStates v' = drawnStates v \<and> configuration v' = configuration v \<and>
     drawHidden v' = drawHidden v \<and> removeHooks v' = removeHooks v \<and>
     (\<exists>es. trace v' = trace v @ es \<and> list_all P es)"

definition any_op :: "effect \<Rightarrow> bool" where
  "any_op e = True"

definition scene_step :: "view \<Rightarrow> view \<Rightarrow> bool" where
  "scene_step v v' \<longleftrightarrow>
     (controller v' = controller v \<or> controller v' = (controller v)\<lparr>c_mode := IDLE\<rparr>) \<and>
     cursor v' = cursor v \<and> configuration v' = configuration v \<and>
     drawHidden v' = drawHidden v \<and> (\<exists>es. trace v' = trace v @ es)"

definition build_step :: "view \<Rightarrow> view \<Rightarrow> bool" where
  "build_step v v' \<longleftrightarrow> scene_step v v' \<and> activeElement v' = activeElement v"

definition dom_step :: "view \<Rightarrow> view \<Rightarrow> bool" where
  "dom_step v v' \<longleftrightarrow> (\<exists>T es. v' = v\<lparr>svgTexts := T, trace := trace v @ es\<rparr>)"

text \<open>A step that leaves the active element alone when no element is active.\<close>

definition calm_step :: "view \<Rightarrow> view \<Rightarrow> bool" where
  "calm_step v v' \<longleftrightarrow>
     soft_step any_op v v' \<and>
     (ae_clientID (activeElement v) = None \<longrightarrow> activeElement v' = activeElement v)"

fun removed_ids :: "ObjectState \<Rightarrow> nat list"
  and removed_ids_list :: "ObjectState list \<Rightarrow> nat list" where
  "removed_ids (ObjectState cid st pts rot occ hid out lk pin z upd fr lid col gid gcol ats ds src els) =
     cid # (if st = ''skeleton'' then removed_ids_list els else [])"
| "removed_ids_list [] = []"
| "removed_ids_list (s # ss) = removed_ids s @ removed_ids_list ss"

definition element_ids :: "ObjectState \<Rightarrow> nat list" where
  "element_ids s = (if shapeType s = ''skeleton'' then removed_ids_list (elements s) else [])"

definition store_ok :: "view \<Rightarrow> bool" where
  "store_ok v = list_all (\<lambda>(k, d). clientID d = k) (drawnStates v)"

definition elements_apart :: "view \<Rightarrow> ObjectState list \<Rightarrow> bool" where
  "elements_apart v states =
     list_all (\<lambda>s. list_all (\<lambda>k. k \<notin> set (map clientID states)) (element_ids s))
       (map snd (drawnStates v) @ states)"

definition creatable :: "view \<Rightarrow> ObjectState list \<Rightarrow> bool" where
  "creatable v states = list_all (\<lambda>s. drawable (shapeType s)) (created_of v states)"

definition rect1 :: ObjectState where
  "rect1 = plain_object 1 ''rectangle'' [0, 0, 10, 10] 1"

definition rect1_moved :: ObjectState where
  "rect1_moved = plain_object 1 ''rectangle'' [0, 0, 20, 20] 1"

definition mask1 :: ObjectState where
  "mask1 = plain_object 1 ''mask'' [0, 0, 10, 10] 1"

definition scene_one :: view where
  "scene_one = projr (setupObjects [rect1] (constructed (controller_with [rect1])))"

definition scene_one_active :: view where
  "scene_one_active =
     projr (notify SHAPE_ACTIVATED
       (scene_one\<lparr>controller := (controller scene_one)
          \<lparr>c_activeElement := \<lparr>ae_clientID = Some 1, ae_attributeID = None\<rparr>\<rparr>\<rparr>))"

definition missing_two :: ActiveElement where
  "missing_two = \<lparr>ae_clientID = Some 2, ae_attributeID = None\<rparr>"

text \<open>A step that leaves the controller alone and adds only effects on primitives.\<close>

definition flag_step :: "view \<Rightarrow> view \<Rightarrow> bool" where
  "flag_step v v' \<longleftrightarrow>
     controller v' = controller v \<and> (\<exists>es. trace v' = trace v @ es \<and> list_all is_dom es)"

text \<open>
  The view after \<open>notify(DRAW)\<close> with \<open>{enabled: true}\<close> on the scene of one rectangle, and
  after \<open>notify(DRAW)\<close> with \<open>{enabled: true, redraw: 1}\<close>, which hides shape 1.
\<close>

definition draw_scene :: view where
  "draw_scene =
     projr (notify UpdateReasons.DRAW
       (scene_one\<lparr>controller := (controller scene_one)
          \<lparr>c_drawData := \<lparr>dd_enabled = True, dd_redraw = None\<rparr>\<rparr>\<rparr>))"

definition redraw_scene :: view where
  "redraw_scene =
     projr (notify UpdateReasons.DRAW
       (scene_one\<lparr>controller := (controller scene_one)
          \<lparr>c_drawData := \<lparr>dd_enabled = True, dd_redraw = Some 1\<rparr>\<rparr>\<rparr>))"

definition redrawn :: DrawResult where
  "redrawn = \<lparr>dr_clientID = Some 1, dr_points = Some [0, 0, 5, 5], dr_elements = None\<rparr>"

text \<open>A polyline whose first two points coincide.\<close>

definition folded_line :: ObjectState where
  "folded_line = plain_object 1 ''polyline'' [3, 4, 3, 4, 7, 8] 1"

text \<open>
  A run of notifications.  Before each one the controller hands over new data; the mode
  is the one the view has left.  The result lists the mode after every notification.
\<close>

fun notify_seq :: "(Controller \<times> UpdateReasons) list \<Rightarrow> view \<Rightarrow> Mode list result" where
  "notify_seq [] v = Inr []"
| "notify_seq ((c, r) # rest) v =
     (case notify r (v\<lparr>controller := c\<lparr>c_mode := mode v\<rparr>\<rparr>) of
        Inl e \<Rightarrow> Inl e
      | Inr v' \<Rightarrow> (case notify_seq rest v' of Inl e \<Rightarrow> Inl e | Inr ms \<Rightarrow> Inr (mode v' # ms)))"

text \<open>A busy mode directly followed by a different busy mode.\<close>

definition stacked :: "Mode \<Rightarrow> Mode \<Rightarrow> bool" where
  "stacked a b \<longleftrightarrow> a \<noteq> Mode.IDLE \<and> b \<noteq> Mode.IDLE \<and> b \<noteq> a"

fun no_stacking :: "Mode list \<Rightarrow> bool" where
  "no_stacking (a # b # ms) = (\<not> stacked a b \<and> no_stacking (b # ms))"
| "no_stacking ms = True"

text \<open>A notification that switches merging, splitting or grouping on.\<close>

definition grouping :: "Controller \<times> UpdateReasons \<Rightarrow> bool" where
  "grouping s \<longleftrightarrow>
     snd s = UpdateReasons.MERGE \<and> c_mergeData (fst s) \<or>
     snd s = UpdateReasons.SPLIT \<and> c_splitData (fst s) \<or>
     snd s = UpdateReasons.GROUP \<and> c_groupData (fst s)"

definition drawing_controller :: Controller where
  "drawing_controller = (controller_with [rect1])\<lparr>c_drawData := \<lparr>dd_enabled = True, dd_redraw = None\<rparr>\<rparr>"

definition merging_controller :: Controller where
  "merging_controller = (controller_with [rect1])\<lparr>c_mergeData := True\<rparr>"

text \<open>An addition that rounds: a sum less than 1 below its second argument becomes that argument.\<close>

definition snap_add :: addition where
  "snap_add a b = (if b - 1 < a + b \<and> a + b < b then b else a + b)"

text \<open>An addition that absorbs its second argument, as the addition of doubles does for a huge first one.\<close>

definition absorbing_add :: addition where
  "absorbing_add a b = a"

text \<open>A rectangle whose stored rotation is 400 degrees.\<close>

definition wound :: ObjectState where
  "wound = set_rotation 400 rect1"

definition wound_scene :: view where
  "wound_scene = projr (setupObjects [wound] (constructed (controller_with [wound])))"

text \<open>A skeleton without elements.\<close>

definition bare_skeleton :: ObjectState where
  "bare_skeleton = plain_object 1 ''skeleton'' [0, 0, 10, 10] 1"

text \<open>
  The identifiers of the primitives an effect works on.  Sorting and repainting work on
  the scene as a whole and name no primitive.
\<close>

fun op_ids :: "dom_op \<Rightarrow> nat list" where
  "op_ids (AddShape cid st) = [cid]"
| "op_ids (AddElementShape sid cid) = [sid, cid]"
| "op_ids (RemoveShape cid) = [cid]"
| "op_ids (AddText cid) = [cid]"
| "op_ids (RemoveText cid) = [cid]"
| "op_ids (UpdateTextPosition cid) = [cid]"
| "op_ids (SetHiddenClass cid b) = [cid]"
| "op_ids (SetTextHiddenClass cid b) = [cid]"
| "op_ids (SetZOrderAttr cid z) = [cid]"
| "op_ids (SetOccludedClass cid b) = [cid]"
| "op_ids (Untransform cid) = [cid]"
| "op_ids (SetGeometry cid ps) = [cid]"
| "op_ids (Rotate cid r) = [cid]"
| "op_ids (PatchAttributeText cid k x) = [cid]"
| "op_ids (SetColor cid) = [cid]"
| "op_ids SortObjects = []"
| "op_ids (SetAttributeHighlight cid aid b) = [cid]"
| "op_ids (DeactivateShape cid) = [cid]"
| "op_ids (ActivateShape cid) = [cid]"
| "op_ids (SetPointerEvents cid b) = [cid]"
| "op_ids (ShowDirection cid a) = [cid]"
| "op_ids (SetProjections cid b) = [cid]"
| "op_ids (Repaint what) = []"

fun event_ids :: "event \<Rightarrow> nat list" where
  "event_ids (Edited s ps r) = [clientID s]"
| "event_ids (Activated s) = [clientID s]"
| "event_ids (DragShape cid) = [cid]"
| "event_ids (ResizeShape cid) = [cid]"
| "event_ids e = []"

fun effect_ids :: "effect \<Rightarrow> nat list" where
  "effect_ids (Dom op) = op_ids op"
| "effect_ids (Dispatch e) = event_ids e"
| "effect_ids (Call c) = []"

text \<open>A step none of whose effects names the primitive \<open>k\<close>.\<close>

definition apart :: "nat \<Rightarrow> view \<Rightarrow> view \<Rightarrow> bool" where
  "apart k v v' \<longleftrightarrow> (\<exists>es. trace v' = trace v @ es \<and> list_all (\<lambda>e. k \<notin> set (effect_ids e)) es)"

text \<open>No stored drawn state has an element of identifier \<open>k\<close>.\<close>

definition no_element :: "nat \<Rightarrow> view \<Rightarrow> bool" where
  "no_element k v = list_all (\<lambda>d. k \<notin> set (element_ids d)) (map snd (drawnStates v))"

text \<open>The effects of deactivating and of activating an element.\<close>

fun cycle_op :: "effect \<Rightarrow> bool" where
  "cycle_op (Dom (ActivateShape cid)) = True"
| "cycle_op (Dom (SetPointerEvents cid b)) = True"
| "cycle_op (Dom (ShowDirection cid a)) = True"
| "cycle_op (Dispatch (Activated s)) = True"
| "cycle_op e = strip_op e"

text \<open>A step all of whose effects satisfy \<open>P\<close>.\<close>

definition only :: "(effect \<Rightarrow> bool) \<Rightarrow> view \<Rightarrow> view \<Rightarrow> bool" where
  "only P v v' \<longleftrightarrow> (\<exists>es. trace v' = trace v @ es \<and> list_all P es)"

text \<open>A second rectangle.\<close>

definition rect2 :: ObjectState where
  "rect2 = plain_object 2 ''rectangle'' [20, 20, 30, 30] 1"

text \<open>
  The scene of one rectangle, active or not, after the controller has received the list
  in which the points of rectangle 1 have changed under the same version and rectangle 2
  is new.
\<close>

definition two_pending :: "view \<Rightarrow> view" where
  "two_pending v = v\<lparr>controller := (controller v)\<lparr>c_objects := [rect1_moved, rect2]\<rparr>\<rparr>"

section \<open>Basic rules\<close>

lemma and_then_Inr: "and_then m f = Inr y \<longleftrightarrow> (\<exists>x. m = Inr x \<and> f x = Inr y)"
  by (cases m) (simp_all add: and_then_def)

lemma emit_simps [simp]:
  "controller (emit e v) = controller v" "cursor (emit e v) = cursor v"
  "svgShapes (emit e v) = svgShapes v" "svgTexts (emit e v) = svgTexts v"
  "drawnStates (emit e v) = drawnStates v" "activeElement (emit e v) = activeElement v"
  "configuration (emit e v) = configuration v" "drawHidden (emit e v) = drawHidden v"
  "removeHooks (emit e v) = removeHooks v" "trace (emit e v) = trace v @ [e]"
  "mode (emit e v) = mode v"
  by (simp_all add: emit_def mode_def)

lemma set_mode_simps [simp]:
  "mode (set_mode m v) = m" "cursor (set_mode m v) = cursor v"
  "svgShapes (set_mode m v) = svgShapes v" "svgTexts (set_mode m v) = svgTexts v"
  "drawnStates (set_mode m v) = drawnStates v" "activeElement (set_mode m v) = activeElement v"
  "configuration (set_mode m v) = configuration v" "drawHidden (set_mode m v) = drawHidden v"
  "removeHooks (set_mode m v) = removeHooks v" "trace (set_mode m v) = trace v"
  "controller (set_mode m v) = (controller v)\<lparr>c_mode := m\<rparr>"
  by (simp_all add: set_mode_def mode_def)

lemma mode_upd [simp]:
  "mode (v\<lparr>cursor := c\<rparr>) = mode v" "mode (v\<lparr>trace := t\<rparr>) = mode v"
  "mode (v\<lparr>svgTexts := T\<rparr>) = mode v" "mode (v\<lparr>svgShapes := S\<rparr>) = mode v"
  "mode (v\<lparr>drawnStates := D\<rparr>) = mode v" "mode (v\<lparr>activeElement := A\<rparr>) = mode v"
  "mode (v\<lparr>configuration := K\<rparr>) = mode v" "mode (v\<lparr>drawHidden := H\<rparr>) = mode v"
  "mode (v\<lparr>removeHooks := R\<rparr>) = mode v"
  by (simp_all add: mode_def)

section \<open>Cancellation\<close>

text \<open>
  Claim C4.  A \<open>CANCEL\<close> notification never fails.  In each mode that has a gesture
  handler it calls that handler's \<open>cancel()\<close> and nothing else; in \<open>DRAG_CANVAS\<close> it
  dispatches \<open>canvas.dragstop\<close>; in \<open>ZOOM_CANVAS\<close> it cancels the zoom handler and dispatches
  \<open>canvas.zoomstop\<close>.  Afterwards the mode is \<open>IDLE\<close> and the cursor is the default one.
\<close>

theorem cancel_restores_idle:
  "\<exists>v'. notify CANCEL v = Inr v' \<and> mode v' = Mode.IDLE \<and> cursor v' = [] \<and>
     (mode v = Mode.DRAW \<longrightarrow> new_effects v v' = [Call DrawHandler_cancel]) \<and>
     (mode v = Mode.INTERACT \<longrightarrow> new_effects v v' = [Call InteractionHandler_cancel]) \<and>
     (mode v = Mode.MERGE \<longrightarrow> new_effects v v' = [Call MergeHandler_cancel]) \<and>
     (mode v = Mode.SPLIT \<longrightarrow> new_effects v v' = [Call SplitHandler_cancel]) \<and>
     (mode v = Mode.GROUP \<longrightarrow> new_effects v v' = [Call GroupHandler_cancel]) \<and>
     (mode v = Mode.SELECT_REGION \<longrightarrow> new_effects v v' = [Call RegionSelector_cancel]) \<and>
     (mode v = Mode.EDIT \<longrightarrow> new_effects v v' = [Call EditHandler_cancel]) \<and>
     (mode v = Mode.DRAG_CANVAS \<longrightarrow> new_effects v v' = [Dispatch DragStop]) \<and>
     (mode v = Mode.ZOOM_CANVAS \<longrightarrow> new_effects v v' = [Call ZoomHandler_cancel, Dispatch ZoomStop])"
  by (simp add: notify_def and_then_def notify_cancel_def new_effects_def Let_def)

theorem cancel_restores_idle_witness:
  "mode (set_mode Mode.DRAW (constructed (controller_with []))) = Mode.DRAW \<and>
   \<not> isl (notify CANCEL (set_mode Mode.DRAW (constructed (controller_with [])))) \<and>
   mode (projr (notify CANCEL (set_mode Mode.DRAW (constructed (controller_with []))))) = Mode.IDLE \<and>
   trace (projr (notify CANCEL (set_mode Mode.DRAW (constructed (controller_with []))))) =
     [Call DrawHandler_cancel]"
  using cancel_restores_idle [of "set_mode Mode.DRAW (constructed (controller_with []))"]
  by (auto simp: new_effects_def constructed_def)

section \<open>Frame rules: labels, activation, scene and store\<close>

text \<open>
  What each operation of the view leaves alone.  A label step changes the label
  dictionary and the trace only; a soft step leaves controller, shapes and drawn states
  alone; a scene step may also reset the mode through a \<open>remove\<close> listener; a build step
  is a scene step that keeps the active element.
\<close>

lemma on_shape_Inr: "on_shape cid op v = Inr v' \<longleftrightarrow> cid \<in> svgShapes v \<and> v' = emit (Dom op) v"
  by (auto simp: on_shape_def)

lemma label_ops_append [simp]:
  "list_all label_op (xs @ ys) \<longleftrightarrow> list_all label_op xs \<and> list_all label_op ys"
  by simp

lemma label_step_refl [simp]: "label_step v v"
  unfolding label_step_def by (rule exI [of _ "svgTexts v"], rule exI [of _ "[]"]) simp

lemma label_step_trans: "label_step a b \<Longrightarrow> label_step b c \<Longrightarrow> label_step a c"
  unfolding label_step_def by (elim exE conjE) (auto intro!: exI)

lemma label_step_emit: "label_op e \<Longrightarrow> label_step v (emit e v)"
  unfolding label_step_def emit_def
  by (rule exI [of _ "svgTexts v"], rule exI [of _ "[e]"]) simp

lemma label_step_texts: "label_step v (v\<lparr>svgTexts := T\<rparr>)"
  unfolding label_step_def by (rule exI [of _ T], rule exI [of _ "[]"]) simp

lemma label_step_texts_after: "label_step v w \<Longrightarrow> label_step v (w\<lparr>svgTexts := T\<rparr>)"
  by (erule label_step_trans) (rule label_step_texts)

lemma label_step_emit_after: "label_step v w \<Longrightarrow> label_op e \<Longrightarrow> label_step v (emit e w)"
  by (erule label_step_trans) (erule label_step_emit)

lemma label_step_fields:
  assumes "label_step v v'"
  shows "controller v' = controller v" "cursor v' = cursor v" "svgShapes v' = svgShapes v"
    "drawnStates v' = drawnStates v" "activeElement v' = activeElement v"
    "configuration v' = configuration v" "drawHidden v' = drawHidden v"
    "removeHooks v' = removeHooks v" "mode v' = mode v"
    "\<exists>es. trace v' = trace v @ es \<and> list_all label_op es"
  using assms unfolding label_step_def by (auto simp: mode_def)

lemma updateTextPosition_rec_step:
  "updateTextPosition_rec n cid v = Inr v' \<Longrightarrow> label_step v v'"
  "updateTextPosition_elems n es v = Inr v' \<Longrightarrow> label_step v v'"
proof (induction n cid v and n es v arbitrary: v' and v'
    rule: updateTextPosition_rec_updateTextPosition_elems.induct)
  case (1 cid v)
  then show ?case by simp
next
  case (2 n cid v)
  show ?case
  proof (cases "cid \<in> svgShapes v")
    case False
    with 2(2) show ?thesis by simp
  next
    case True
    let ?v1 = "emit (Dom (UpdateTextPosition cid)) v"
    have s1: "label_step v ?v1" by (simp add: label_step_emit)
    show ?thesis
    proof (cases "map_of (drawnStates ?v1) cid")
      case None
      with 2(2) True s1 show ?thesis by (simp add: Let_def)
    next
      case (Some d)
      show ?thesis
      proof (cases "shapeType d = ''skeleton''")
        case sk: True
        with Some 2(2) True have "updateTextPosition_elems n (elements d) ?v1 = Inr v'"
          by (simp add: Let_def)
        then have "label_step ?v1 v'" using 2(1) [OF _ refl Some sk] True by blast
        with s1 show ?thesis by (rule label_step_trans)
      next
        case False
        with Some 2(2) True s1 show ?thesis by (simp add: Let_def)
      qed
    qed
  qed
next
  case (3 n v)
  then show ?case by simp
next
  case (4 n e es v)
  show ?case
  proof (cases "clientID e \<in> svgTexts v")
    case True
    with 4(4) obtain w where w: "updateTextPosition_rec n (clientID e) v = Inr w"
      and rest: "updateTextPosition_elems n es w = Inr v'"
      by (auto split: sum.splits)
    from 4(1) [OF True w] 4(2) [OF True w rest] show ?thesis by (rule label_step_trans)
  next
    case False
    with 4(4) have "updateTextPosition_elems n es v = Inr v'" by simp
    with 4(3) [OF False] show ?thesis by blast
  qed
qed

lemma updateTextPosition_step: "updateTextPosition cid v = Inr v' \<Longrightarrow> label_step v v'"
  unfolding updateTextPosition_def by (rule updateTextPosition_rec_step)

lemma addText_step:
  "label_step v (addText s v)"
  "label_step v (addText_elems ss v)"
proof (induction s v and ss v rule: addText_addText_elems.induct)
  case (1 cid st pts rot occ hid out lk pin z upd fr lid col gid gcol ats ds src els v)
  then show ?case by (auto intro!: label_step_emit_after)
next
  case (2 v)
  show ?case by simp
next
  case (3 e es v)
  let ?x = "if clientID e \<in> svgTexts v then v
            else (let v' = addText e v in v'\<lparr>svgTexts := insert (clientID e) (svgTexts v')\<rparr>)"
  have "label_step v ?x"
  proof (cases "clientID e \<in> svgTexts v")
    case True
    then show ?thesis by simp
  next
    case False
    from 3(1) [OF False] have "label_step v
        ((addText e v)\<lparr>svgTexts := insert (clientID e) (svgTexts (addText e v))\<rparr>)"
      by (rule label_step_texts_after)
    with False show ?thesis by (simp add: Let_def)
  qed
  moreover have "label_step ?x (addText_elems es ?x)" using 3(2) .
  ultimately have "label_step v (addText_elems es ?x)" by (rule label_step_trans)
  then show ?case by (simp only: addText_elems.simps)
qed

lemma store_text_step: "label_step v (store_text s v)"
  unfolding store_text_def Let_def by (rule label_step_texts_after) (rule addText_step)

lemma store_text_at_step: "label_step v (store_text_at k s v)"
  unfolding store_text_at_def Let_def by (rule label_step_texts_after) (rule addText_step)

lemma deleteText_rec_step:
  "deleteText_rec n cid v = Inr v' \<Longrightarrow> label_step v v'"
  "deleteText_elems n es v = Inr v' \<Longrightarrow> label_step v v'"
proof (induction n cid v and n es v arbitrary: v' and v' rule: deleteText_rec_deleteText_elems.induct)
  case (1 cid v)
  then show ?case by simp
next
  case (2 n cid v)
  let ?v1 = "if cid \<in> svgTexts v
             then emit (Dom (RemoveText cid)) (v\<lparr>svgTexts := svgTexts v - {cid}\<rparr>) else v"
  have s1: "label_step v ?v1"
    by (auto intro!: label_step_emit_after label_step_texts)
  show ?case
  proof (cases "map_of (drawnStates ?v1) cid")
    case None
    with 2(2) s1 show ?thesis by (simp add: Let_def split: if_splits)
  next
    case (Some d)
    show ?thesis
    proof (cases "shapeType d = ''skeleton''")
      case True
      with Some 2(2) have "deleteText_elems n (elements d) ?v1 = Inr v'"
        by (simp add: Let_def split: if_splits)
      then have "label_step ?v1 v'" using 2(1) [OF refl Some True] by blast
      with s1 show ?thesis by (rule label_step_trans)
    next
      case False
      with Some 2(2) s1 show ?thesis by (simp add: Let_def split: if_splits)
    qed
  qed
next
  case (3 n v)
  then show ?case by simp
next
  case (4 n e es v)
  from 4(3) obtain w where w: "deleteText_rec n (clientID e) v = Inr w"
    and rest: "deleteText_elems n es w = Inr v'"
    by (auto split: sum.splits)
  from 4(1) [OF w] 4(2) [OF w rest] show ?case by (rule label_step_trans)
qed

lemma deleteText_step: "deleteText cid v = Inr v' \<Longrightarrow> label_step v v'"
  unfolding deleteText_def by (rule deleteText_rec_step)

lemma soft_step_refl [simp]: "soft_step P v v"
  by (simp add: soft_step_def)

lemma soft_step_trans: "soft_step P a b \<Longrightarrow> soft_step P b c \<Longrightarrow> soft_step P a c"
  by (auto simp: soft_step_def)

lemma soft_step_mono: "soft_step P v v' \<Longrightarrow> (\<And>e. P e \<Longrightarrow> Q e) \<Longrightarrow> soft_step Q v v'"
  by (auto simp: soft_step_def list_all_iff)

lemma label_soft: "label_step v v' \<Longrightarrow> (\<And>e. label_op e \<Longrightarrow> P e) \<Longrightarrow> soft_step P v v'"
  by (auto simp: label_step_def soft_step_def list_all_iff)

lemma soft_step_emit: "P e \<Longrightarrow> soft_step P v (emit e v)"
  by (simp add: soft_step_def)

lemma soft_step_mode: "soft_step P v v' \<Longrightarrow> mode v' = mode v"
  by (simp add: soft_step_def mode_def)

lemma label_strip: "label_op e \<Longrightarrow> strip_op e"
  by (cases e rule: label_op.cases) simp_all

lemma deactivateAttribute_soft: "soft_step strip_op v (deactivateAttribute v)"
  by (auto simp: deactivateAttribute_def soft_step_def Let_def split: option.splits)

lemma deactivateAttribute_active [simp]:
  "ae_clientID (activeElement (deactivateAttribute v)) = ae_clientID (activeElement v)"
  by (auto simp: deactivateAttribute_def Let_def split: option.splits)

lemma deactivateAttribute_attribute:
  "ae_clientID (activeElement v) = Some a \<Longrightarrow> ae_attributeID (activeElement (deactivateAttribute v)) = None"
  by (auto simp: deactivateAttribute_def Let_def split: option.splits)

lemma deactivateAttribute_texts [simp]:
  "svgTexts (deactivateAttribute v) = svgTexts v"
  by (auto simp: deactivateAttribute_def Let_def split: option.splits)

lemma strip_affordances_soft: "soft_step strip_op v (strip_affordances cid d v)"
  by (simp add: soft_step_def strip_affordances_def Let_def)

lemma strip_affordances_fields [simp]:
  "activeElement (strip_affordances cid d v) = activeElement v"
  "svgTexts (strip_affordances cid d v) = svgTexts v"
  "trace (strip_affordances cid d v) =
     trace v @ Dom (DeactivateShape cid) #
       (if shapeType d = ''cuboid'' then [Dom (SetProjections cid False)] else [])"
  by (simp_all add: strip_affordances_def Let_def)

lemma drop_label_step: "drop_label cid v = Inr v' \<Longrightarrow> label_step v v'"
  by (auto simp: drop_label_def split: if_splits dest: deleteText_step)

lemma sortObjects_soft: "soft_step strip_op v (sortObjects v)"
  by (simp add: soft_step_def sortObjects_def)

lemma sortObjects_fields [simp]:
  "activeElement (sortObjects v) = activeElement v"
  "trace (sortObjects v) = trace v @ [Dom SortObjects]"
  "svgTexts (sortObjects v) = svgTexts v" "mode (sortObjects v) = mode v"
  "controller (sortObjects v) = controller v" "drawnStates (sortObjects v) = drawnStates v"
  "svgShapes (sortObjects v) = svgShapes v" "cursor (sortObjects v) = cursor v"
  "configuration (sortObjects v) = configuration v" "drawHidden (sortObjects v) = drawHidden v"
  "removeHooks (sortObjects v) = removeHooks v"
  by (simp_all add: sortObjects_def)

lemma clear_active_soft: "soft_step P v (clear_active v)"
  by (simp add: soft_step_def clear_active_def)

lemma clear_active_fields [simp]:
  "ae_clientID (activeElement (clear_active v)) = None"
  "ae_attributeID (activeElement (clear_active v)) = ae_attributeID (activeElement v)"
  "trace (clear_active v) = trace v" "svgTexts (clear_active v) = svgTexts v"
  by (simp_all add: clear_active_def)

lemma deactivateShape_cases:
  assumes "deactivateShape v = Inr v'"
  obtains (idle) "ae_clientID (activeElement v) = None" "v' = v"
  | (active) cid d v3 where "ae_clientID (activeElement v) = Some cid" "cid \<in> svgShapes v"
      "map_of (drawnStates v) cid = Some d" "label_step (strip_affordances cid d v) v3"
      "v' = clear_active (sortObjects v3)"
proof (cases "ae_clientID (activeElement v)")
  case None
  with assms have "v' = v" by (simp add: deactivateShape_def)
  with None show ?thesis by (rule idle)
next
  case (Some cid)
  show ?thesis
  proof (cases "cid \<in> svgShapes v")
    case False
    with assms Some show ?thesis by (simp add: deactivateShape_def)
  next
    case True
    show ?thesis
    proof (cases "map_of (drawnStates v) cid")
      case None
      with assms Some True show ?thesis by (simp add: deactivateShape_def)
    next
      case d: (Some d)
      from assms Some True d obtain v3 where
        v3: "drop_label cid (strip_affordances cid d v) = Inr v3"
        and v': "v' = clear_active (sortObjects v3)"
        by (auto simp: deactivateShape_def and_then_Inr)
      from v3 have "label_step (strip_affordances cid d v) v3" by (rule drop_label_step)
      with Some True d show ?thesis using v' by (rule active)
    qed
  qed
qed

lemma deactivateShape_soft:
  assumes "deactivateShape v = Inr v'"
  shows "soft_step strip_op v v'"
  using assms
proof (cases rule: deactivateShape_cases)
  case idle
  then show ?thesis by simp
next
  case (active cid d v3)
  from active(4) have "soft_step strip_op (strip_affordances cid d v) v3"
    by (rule label_soft) (rule label_strip)
  with strip_affordances_soft have "soft_step strip_op v v3" by (rule soft_step_trans)
  then have "soft_step strip_op v (sortObjects v3)"
    by (rule soft_step_trans) (rule sortObjects_soft)
  then show ?thesis unfolding active(5)
    by (rule soft_step_trans) (rule clear_active_soft)
qed

lemma deactivateShape_active:
  assumes "deactivateShape v = Inr v'"
  shows "ae_clientID (activeElement v') = None"
    and "ae_attributeID (activeElement v') = ae_attributeID (activeElement v)"
proof -
  from assms have "ae_clientID (activeElement v') = None \<and>
      ae_attributeID (activeElement v') = ae_attributeID (activeElement v)"
  proof (cases rule: deactivateShape_cases)
    case idle
    then show ?thesis by simp
  next
    case (active cid d v3)
    from active(4) have "activeElement v3 = activeElement (strip_affordances cid d v)"
      by (rule label_step_fields)
    with active show ?thesis by simp
  qed
  then show "ae_clientID (activeElement v') = None"
    and "ae_attributeID (activeElement v') = ae_attributeID (activeElement v)" by simp_all
qed

lemma deactivateShape_effect:
  assumes "deactivateShape v = Inr v'" and "ae_clientID (activeElement v) = Some cid"
  shows "Dom (DeactivateShape cid) \<in> set (new_effects v v')"
    and "cid \<in> svgShapes v" and "map_of (drawnStates v) cid \<noteq> None"
proof -
  from assms(1) have "Dom (DeactivateShape cid) \<in> set (new_effects v v') \<and>
     cid \<in> svgShapes v \<and> map_of (drawnStates v) cid \<noteq> None"
  proof (cases rule: deactivateShape_cases)
    case idle
    with assms(2) show ?thesis by simp
  next
    case (active c d v3)
    from active(4) obtain es where "trace v3 = trace (strip_affordances c d v) @ es"
      using label_step_fields(10) by blast
    with active assms(2) show ?thesis by (simp add: new_effects_def)
  qed
  then show "Dom (DeactivateShape cid) \<in> set (new_effects v v')"
    and "cid \<in> svgShapes v" and "map_of (drawnStates v) cid \<noteq> None" by simp_all
qed

lemma deactivate_soft: "deactivate v = Inr v' \<Longrightarrow> soft_step strip_op v v'"
  unfolding deactivate_def
  by (rule soft_step_trans [OF deactivateAttribute_soft]) (rule deactivateShape_soft)

lemma deactivate_active:
  assumes "deactivate v = Inr v'"
  shows "ae_clientID (activeElement v') = None"
    and "ae_clientID (activeElement v) \<noteq> None \<Longrightarrow> ae_attributeID (activeElement v') = None"
  using assms deactivateShape_active [of "deactivateAttribute v" v']
  by (auto simp: deactivate_def deactivateAttribute_attribute)

lemma soft_step_new_effects:
  "soft_step P a b \<Longrightarrow> soft_step Q b c \<Longrightarrow> new_effects a c = new_effects a b @ new_effects b c"
  by (auto simp: soft_step_def new_effects_def)

lemma deactivate_effect:
  assumes "deactivate v = Inr v'" and "ae_clientID (activeElement v) = Some cid"
  shows "Dom (DeactivateShape cid) \<in> set (new_effects v v')"
    and "cid \<in> svgShapes v" and "map_of (drawnStates v) cid \<noteq> None"
proof -
  let ?w = "deactivateAttribute v"
  from assms have d: "deactivateShape ?w = Inr v'" and a: "ae_clientID (activeElement ?w) = Some cid"
    by (simp_all add: deactivate_def)
  have s: "soft_step strip_op v ?w" by (rule deactivateAttribute_soft)
  have n: "new_effects v v' = new_effects v ?w @ new_effects ?w v'"
    using s deactivateShape_soft [OF d] by (rule soft_step_new_effects)
  from deactivateShape_effect(1) [OF d a] show "Dom (DeactivateShape cid) \<in> set (new_effects v v')"
    unfolding n by simp
  from deactivateShape_effect(2) [OF d a] s show "cid \<in> svgShapes v" by (simp add: soft_step_def)
  from deactivateShape_effect(3) [OF d a] s show "map_of (drawnStates v) cid \<noteq> None"
    by (simp add: soft_step_def)
qed

lemma any_op_all [simp]: "list_all any_op es"
  by (simp add: list_all_iff any_op_def)

lemma soft_any: "soft_step P v v' \<Longrightarrow> soft_step any_op v v'"
  by (rule soft_step_mono) (simp_all add: any_op_def)

lemma label_any: "label_step v v' \<Longrightarrow> soft_step any_op v v'"
  by (rule label_soft) (simp_all add: any_op_def)

lemma on_shape_soft: "on_shape cid op v = Inr v' \<Longrightarrow> soft_step any_op v v'"
  by (auto simp: on_shape_Inr soft_step_def)

lemma showDirection_soft: "showDirection s v = Inr v' \<Longrightarrow> soft_step any_op v v'"
  by (auto simp: showDirection_def soft_step_def split: list.splits)

lemma set_pointer_events_soft: "set_pointer_events s v = Inr v' \<Longrightarrow> soft_step any_op v v'"
  by (auto simp: set_pointer_events_def split: if_splits dest: on_shape_soft)

lemma ensure_text_step: "label_step v (ensure_text s v)"
  by (simp add: ensure_text_def store_text_step)

lemma install_affordances_soft:
  assumes "install_affordances s v = Inr v'"
  shows "soft_step any_op v v'"
proof -
  let ?cid = "clientID s"
  from assms obtain v1 v3 where
    1: "on_shape ?cid (ActivateShape ?cid) v = Inr v1"
    and 3: "(let v2 = (if shapeType s = ''cuboid'' \<and> showProjections (configuration v1)
                       then emit (Dom (SetProjections ?cid True)) v1 else v1)
             in if shapeType s = ''polygon'' \<or> shapeType s = ''polyline''
                then showDirection s v2 else Inr v2) = Inr v3"
    and v': "v' = emit (Dispatch (Activated s)) v3"
    unfolding install_affordances_def Let_def and_then_Inr by blast
  from 1 have s1: "soft_step any_op v v1" by (rule on_shape_soft)
  from 3 have "soft_step any_op v1 v3"
    by (auto simp: Let_def soft_step_def showDirection_def split: if_splits list.splits)
  with s1 have "soft_step any_op v v3" by (rule soft_step_trans)
  then show ?thesis unfolding v' by (auto simp: soft_step_def)
qed

lemma activateShape_absent:
  "find_state cid (c_objects (controller v)) = None \<Longrightarrow> activateShape cid v = Inr v"
  by (simp add: activateShape_def)

lemma activateShape_soft:
  assumes "activateShape cid v = Inr v'"
  shows "soft_step any_op v v'"
proof (cases "find_state cid (c_objects (controller v))")
  case None
  with assms show ?thesis by (simp add: activateShape_def)
next
  case (Some s)
  with assms obtain v1 where 1: "set_pointer_events s v = Inr v1"
    and rest: "(if hidden s \<or> outside s then Inr v1
                else and_then (updateTextPosition cid (ensure_text s v1)) (\<lambda>v2.
                       if stateIsLocked v2 s then Inr v2 else install_affordances s v2)) = Inr v'"
    by (auto simp: activateShape_def and_then_Inr)
  from 1 have s1: "soft_step any_op v v1" by (rule set_pointer_events_soft)
  show ?thesis
  proof (cases "hidden s \<or> outside s")
    case True
    with rest s1 show ?thesis by simp
  next
    case False
    with rest obtain v2 where 2: "updateTextPosition cid (ensure_text s v1) = Inr v2"
      and 3: "(if stateIsLocked v2 s then Inr v2 else install_affordances s v2) = Inr v'"
      by (auto simp: and_then_Inr)
    have "label_step v1 v2"
      using ensure_text_step updateTextPosition_step [OF 2] by (rule label_step_trans)
    then have "soft_step any_op v1 v2" by (rule label_any)
    with s1 have s2: "soft_step any_op v v2" by (rule soft_step_trans)
    from 3 have "soft_step any_op v2 v'"
      by (auto split: if_splits dest: install_affordances_soft)
    with s2 show ?thesis by (rule soft_step_trans)
  qed
qed

lemma activateAttribute_soft: "soft_step strip_op v (activateAttribute cid aid v)"
  by (simp add: activateAttribute_def soft_step_def Let_def)

lemma release_previous_soft: "release_previous ae v = Inr v' \<Longrightarrow> soft_step strip_op v v'"
  by (auto simp: release_previous_def deactivateAttribute_soft
      split: option.splits if_splits dest: deactivate_soft)

lemma claim_attribute_soft: "soft_step strip_op v (claim_attribute ae v)"
  by (simp add: claim_attribute_def activateAttribute_soft split: option.splits)

lemma claim_shape_soft: "claim_shape ae v = Inr v' \<Longrightarrow> soft_step any_op v v'"
  by (auto simp: claim_shape_def and_then_Inr soft_step_def
      split: option.splits if_splits dest!: activateShape_soft)

lemma activate_soft:
  assumes "activate ae v = Inr v'"
  shows "soft_step any_op v v'"
proof -
  from assms obtain v1 v2 where 1: "release_previous ae v = Inr v1"
    and 2: "claim_shape ae v1 = Inr v2" and v': "v' = claim_attribute ae v2"
    by (auto simp: activate_def and_then_Inr)
  from 1 have "soft_step any_op v v1" by (rule soft_any [OF release_previous_soft])
  moreover from 2 have "soft_step any_op v1 v2" by (rule claim_shape_soft)
  moreover have "soft_step any_op v2 v'" unfolding v' by (rule soft_any [OF claim_attribute_soft])
  ultimately show ?thesis by (blast intro: soft_step_trans)
qed

text \<open>Activating an identifier that the object list does not contain.\<close>

lemma claim_shape_absent:
  "find_state cid (c_objects (controller v)) = None \<Longrightarrow>
   claim_shape \<lparr>ae_clientID = Some cid, ae_attributeID = aid\<rparr> v =
     Inr (if ae_clientID (activeElement v) \<noteq> Some cid
          then v\<lparr>activeElement := (activeElement v)\<lparr>ae_clientID := Some cid\<rparr>\<rparr> else v)"
  by (simp add: claim_shape_def activateShape_absent and_then_def)

lemma strip_not_activation: "strip_op e \<Longrightarrow> \<not> shape_activation e"
  by (cases e rule: shape_activation.cases) simp_all

lemma soft_step_effects:
  "soft_step P v v' \<Longrightarrow> list_all P (new_effects v v')"
  by (auto simp: soft_step_def new_effects_def)

lemma activate_absent:
  assumes absent: "find_state cid (c_objects (controller v)) = None"
    and run: "activate \<lparr>ae_clientID = Some cid, ae_attributeID = aid\<rparr> v = Inr v'"
  shows "soft_step strip_op v v'" and "ae_clientID (activeElement v') = Some cid"
proof -
  let ?ae = "\<lparr>ae_clientID = Some cid, ae_attributeID = aid\<rparr>"
  from run obtain v1 v2 where 1: "release_previous ?ae v = Inr v1"
    and 2: "claim_shape ?ae v1 = Inr v2" and v': "v' = claim_attribute ?ae v2"
    by (auto simp: activate_def and_then_Inr)
  from 1 have s1: "soft_step strip_op v v1" by (rule release_previous_soft)
  then have "controller v1 = controller v" by (simp add: soft_step_def)
  with absent have "find_state cid (c_objects (controller v1)) = None" by simp
  from 2 [unfolded claim_shape_absent [OF this]]
  have v2: "v2 = (if ae_clientID (activeElement v1) \<noteq> Some cid
          then v1\<lparr>activeElement := (activeElement v1)\<lparr>ae_clientID := Some cid\<rparr>\<rparr> else v1)"
    by simp
  then have s2: "soft_step strip_op v1 v2" by (simp add: soft_step_def)
  have s3: "soft_step strip_op v2 v'" unfolding v' by (rule claim_attribute_soft)
  from s1 s2 s3 show "soft_step strip_op v v'" by (blast intro: soft_step_trans)
  from v2 have "ae_clientID (activeElement v2) = Some cid" by (simp split: if_splits)
  then show "ae_clientID (activeElement v') = Some cid"
    unfolding v' by (simp add: claim_attribute_def activateAttribute_def Let_def split: option.splits)
qed

lemma scene_step_refl [simp]: "scene_step v v"
  by (simp add: scene_step_def)

lemma scene_step_trans: "scene_step a b \<Longrightarrow> scene_step b c \<Longrightarrow> scene_step a c"
  by (auto simp: scene_step_def)

lemma build_step_refl [simp]: "build_step v v"
  by (simp add: build_step_def)

lemma build_step_trans: "build_step a b \<Longrightarrow> build_step b c \<Longrightarrow> build_step a c"
  by (auto simp: build_step_def intro: scene_step_trans)

lemma soft_scene: "soft_step P v v' \<Longrightarrow> scene_step v v'"
  by (auto simp: soft_step_def scene_step_def)

lemma label_build: "label_step v v' \<Longrightarrow> build_step v v'"
  by (auto simp: label_step_def build_step_def scene_step_def)

lemma scene_step_mode: "scene_step v v' \<Longrightarrow> mode v' = mode v \<or> mode v' = IDLE"
  by (auto simp: scene_step_def mode_def)

lemma scene_step_objects: "scene_step v v' \<Longrightarrow> c_objects (controller v') = c_objects (controller v)"
  and scene_step_ctrl_active:
    "scene_step v v' \<Longrightarrow> c_activeElement (controller v') = c_activeElement (controller v)"
  by (auto simp: scene_step_def)

lemma remove_shape_build: "build_step v (remove_shape cid v)"
  by (auto simp: remove_shape_def build_step_def scene_step_def Let_def)

lemma drop_drawn_build: "build_step v (drop_drawn cid v)"
  by (simp add: drop_drawn_def build_step_def scene_step_def)

lemma deleteObject_build:
  "deleteObject s v = Inr v' \<Longrightarrow> build_step v v'"
  "deleteObjects ss v = Inr v' \<Longrightarrow> build_step v v'"
proof (induction s v and ss v arbitrary: v' and v' rule: deleteObject_deleteObjects.induct)
  case (1 cid st pts rot occ hid out lk pin z upd fr lid col gid gcol ats ds src els v)
  from 1(2) obtain v1 v2 where
    a: "(if cid \<in> svgTexts v then deleteText cid v else Inr v) = Inr v1"
    and b: "(if st = ''skeleton'' then deleteObjects els v1 else Inr v1) = Inr v2"
    and c: "v' = drop_drawn cid (remove_shape cid v2)"
    by (auto split: sum.splits)
  from a have s1: "build_step v v1"
    by (auto split: if_splits dest!: deleteText_step label_build)
  have s2: "build_step v1 v2"
  proof (cases "st = ''skeleton''")
    case True
    with b have "deleteObjects els v1 = Inr v2" by simp
    with 1(1) [OF a True] show ?thesis by blast
  next
    case False
    with b show ?thesis by simp
  qed
  have "build_step v2 v'" unfolding c
    using remove_shape_build drop_drawn_build by (rule build_step_trans)
  with s1 s2 show ?case by (blast intro: build_step_trans)
next
  case (2 v)
  then show ?case by simp
next
  case (3 s ss v)
  from 3(3) obtain w where w: "deleteObject s v = Inr w" and r: "deleteObjects ss w = Inr v'"
    by (auto split: sum.splits)
  from 3(1) [OF w] 3(2) [OF w r] show ?case by (rule build_step_trans)
qed

lemma addSkeleton_elements_build: "build_step v (addSkeleton_elements sid es v)"
proof (induction es arbitrary: v)
  case Nil
  show ?case by simp
next
  case (Cons e es)
  let ?w = "if shapeType e = ''points''
            then emit (Dom (AddElementShape sid (clientID e)))
                   (v\<lparr>svgShapes := insert (clientID e) (svgShapes v)\<rparr>)
            else v"
  have "build_step v ?w" by (simp add: build_step_def scene_step_def)
  from this Cons [of ?w] have "build_step v (addSkeleton_elements sid es ?w)"
    by (rule build_step_trans)
  then show ?case by simp
qed

lemma addSkeleton_build: "build_step v (addSkeleton s v)"
proof -
  have "build_step v (emit (Dom (AddShape (clientID s) ''skeleton'')) v)"
    by (simp add: build_step_def scene_step_def)
  then show ?thesis unfolding addSkeleton_def
    by (rule build_step_trans) (rule addSkeleton_elements_build)
qed

lemma save_drawn_build: "build_step v (save_drawn s v)"
  by (simp add: save_drawn_def build_step_def scene_step_def)

lemma forEach_step:
  assumes step: "\<And>x a b. f x a = Inr b \<Longrightarrow> R a b"
    and refl: "\<And>a. R a a" and trans: "\<And>a b c. R a b \<Longrightarrow> R b c \<Longrightarrow> R a c"
  shows "forEach f xs v = Inr v' \<Longrightarrow> R v v'"
proof (induction xs arbitrary: v)
  case Nil
  then show ?case by (simp add: refl)
next
  case (Cons x xs)
  from Cons(2) obtain w where w: "f x v = Inr w" and r: "forEach f xs w = Inr v'"
    by (auto split: sum.splits)
  from step [OF w] Cons(1) [OF r] show ?case by (rule trans)
qed

lemma addObject_build:
  assumes "addObject dat s v = Inr v'"
  shows "build_step v v'"
proof (cases "drawable (shapeType s)")
  case False
  with assms show ?thesis by (simp add: addObject_def)
next
  case True
  let ?v1 = "if shapeType s = ''skeleton'' then addSkeleton s v
             else emit (Dom (AddShape (clientID s) (shapeType s))) v"
  let ?v2 = "?v1\<lparr>svgShapes := insert (clientID s) (svgShapes ?v1)\<rparr>"
  from assms True obtain v3 where
    3: "(if dat then updateTextPosition (clientID s) (store_text s ?v2) else Inr ?v2) = Inr v3"
    and v': "v' = save_drawn s v3"
    by (auto simp: addObject_def Let_def and_then_Inr)
  have "build_step v ?v1"
    by (simp add: addSkeleton_build) (simp add: build_step_def scene_step_def)
  moreover have "build_step ?v1 ?v2" by (simp add: build_step_def scene_step_def)
  moreover have "build_step ?v2 v3"
  proof (cases dat)
    case True
    with 3 have "label_step (store_text s ?v2) v3" by (auto dest: updateTextPosition_step)
    with store_text_step have "label_step ?v2 v3" by (rule label_step_trans)
    then show ?thesis by (rule label_build)
  next
    case False
    with 3 show ?thesis by simp
  qed
  moreover have "build_step v3 v'" unfolding v' by (rule save_drawn_build)
  ultimately show ?thesis by (blast intro: build_step_trans)
qed

lemma addObjects_build: "addObjects ss v = Inr v' \<Longrightarrow> build_step v v'"
  unfolding addObjects_def
  by (erule forEach_step [rotated 3]) (auto intro: addObject_build build_step_trans)

lemma dom_step_refl [simp]: "dom_step v v"
  unfolding dom_step_def by (rule exI [of _ "svgTexts v"], rule exI [of _ "[]"]) simp

lemma dom_step_trans: "dom_step a b \<Longrightarrow> dom_step b c \<Longrightarrow> dom_step a c"
  unfolding dom_step_def by (elim exE) (auto intro!: exI)

lemma label_dom: "label_step v v' \<Longrightarrow> dom_step v v'"
  by (auto simp: label_step_def dom_step_def)

lemma dom_step_emit: "dom_step v (emit e v)"
  unfolding dom_step_def emit_def by (rule exI [of _ "svgTexts v"], rule exI [of _ "[e]"]) simp

lemma dom_soft: "dom_step v v' \<Longrightarrow> soft_step any_op v v'"
  by (auto simp: dom_step_def soft_step_def)

lemma dom_build: "dom_step v v' \<Longrightarrow> build_step v v'"
  by (auto simp: dom_step_def build_step_def scene_step_def)

lemma dom_step_fields:
  assumes "dom_step v v'"
  shows "controller v' = controller v" "svgShapes v' = svgShapes v"
    "drawnStates v' = drawnStates v" "activeElement v' = activeElement v"
  using assms by (auto simp: dom_step_def)

lemma on_shape_dom: "on_shape cid op v = Inr v' \<Longrightarrow> dom_step v v'"
  by (auto simp: on_shape_Inr dom_step_emit)

lemma patch_attr_dom: "patch_attr b cid op v = Inr v' \<Longrightarrow> dom_step v v'"
  by (auto simp: patch_attr_def split: if_splits dest: on_shape_dom)

lemma patch_visibility_dom:
  assumes "patch_visibility s d t v = Inr v'"
  shows "dom_step v v'"
proof (cases "hidden d \<noteq> hidden s \<or> outside d \<noteq> outside s")
  case False
  with assms show ?thesis by (simp add: patch_visibility_def Let_def)
next
  case True
  let ?cid = "clientID s"
  let ?inv = "hidden s \<or> outside s \<or> isInnerHidden v ?cid"
  from assms True obtain w where
    w: "on_shape ?cid (SetHiddenClass ?cid ?inv) v = Inr w"
    and r: "(if t then (if ?inv then Inr (emit (Dom (SetTextHiddenClass ?cid True)) w)
                        else updateTextPosition ?cid (emit (Dom (SetTextHiddenClass ?cid False)) w))
             else Inr w) = Inr v'"
    by (auto simp: patch_visibility_def Let_def and_then_Inr)
  from w have s1: "dom_step v w" by (rule on_shape_dom)
  from r have "dom_step w v'"
    by (auto split: if_splits intro: dom_step_emit
        dest!: updateTextPosition_step label_dom intro: dom_step_trans [OF dom_step_emit])
  with s1 show ?thesis by (rule dom_step_trans)
qed

lemma patch_geometry_dom:
  assumes "patch_geometry s d v = Inr v'"
  shows "dom_step v v'"
proof -
  from assms obtain v1 v2 where
    "patch_attr (rotation d \<noteq> 0) (clientID s) (Untransform (clientID s)) v = Inr v1"
    "patch_attr (points s \<noteq> points d) (clientID s)
       (SetGeometry (clientID s) (translateToCanvas (c_offset (controller v1)) (points s))) v1 = Inr v2"
    "patch_attr (rotation s \<noteq> 0) (clientID s) (Rotate (clientID s) (rotation s)) v2 = Inr v'"
    by (auto simp: patch_geometry_def Let_def and_then_Inr)
  then show ?thesis by (blast intro: dom_step_trans dest: patch_attr_dom)
qed

lemma patch_color_dom:
  assumes "patch_color s d v = Inr v'"
  shows "dom_step v v'"
proof -
  let ?v1 = "if (label_id d \<noteq> label_id s \<or> color d \<noteq> color s) \<and> clientID s \<in> svgShapes v
             then emit (Dom (SetColor (clientID s))) v else v"
  have "dom_step v ?v1" by (simp add: dom_step_emit)
  moreover from assms have "dom_step ?v1 v'"
    by (auto simp: patch_color_def Let_def dest: patch_attr_dom)
  ultimately show ?thesis by (rule dom_step_trans)
qed

lemma fold_emit_dom: "dom_step v (fold (\<lambda>k w. if P k then emit (f k) w else w) ks v)"
proof (induction ks arbitrary: v)
  case Nil
  show ?case by simp
next
  case (Cons k ks)
  have "dom_step v (if P k then emit (f k) v else v)" by (simp add: dom_step_emit)
  from this Cons have "dom_step v (fold (\<lambda>k w. if P k then emit (f k) w else w) ks
      (if P k then emit (f k) v else v))" by (rule dom_step_trans)
  then show ?case by simp
qed

lemma fold_skip [simp]: "fold (\<lambda>k w. w) ks v = v"
  by (induction ks) simp_all

lemma patch_text_dom: "dom_step v (patch_text s d t v)"
proof -
  have "dom_step v (store_text s (emit (Dom (RemoveText (clientID s))) v))"
    using dom_step_emit label_dom [OF store_text_step] by (rule dom_step_trans)
  then show ?thesis
    unfolding patch_text_def Let_def by (auto intro: fold_emit_dom)
qed

lemma calm_step_trans: "calm_step a b \<Longrightarrow> calm_step b c \<Longrightarrow> calm_step a c"
  by (auto simp: calm_step_def intro: soft_step_trans)

lemma dom_calm: "dom_step v v' \<Longrightarrow> calm_step v v'"
  by (simp add: calm_step_def dom_soft dom_step_fields)

lemma deactivate_activate_soft:
  assumes "deactivate_activate v = Inr v'"
  shows "soft_step any_op v v'"
proof -
  from assms obtain w where 1: "deactivate v = Inr w" and 2: "activate (activeElement v) w = Inr v'"
    by (auto simp: deactivate_activate_def and_then_Inr)
  from 1 have "soft_step any_op v w" by (rule soft_any [OF deactivate_soft])
  moreover from 2 have "soft_step any_op w v'" by (rule activate_soft)
  ultimately show ?thesis by (rule soft_step_trans)
qed

lemma patch_pinned_calm: "patch_pinned s d v = Inr v' \<Longrightarrow> calm_step v v'"
  by (auto simp: patch_pinned_def calm_step_def split: if_splits dest: deactivate_activate_soft)

lemma updateObject_cases:
  assumes "updateObject s v = Inr v'"
  obtains d w where "map_of (drawnStates v) (clientID s) = Some d" "calm_step v w"
    "v' = save_drawn s w"
proof -
  from assms obtain d where d: "map_of (drawnStates v) (clientID s) = Some d"
    by (cases "map_of (drawnStates v) (clientID s)") (simp_all add: updateObject_def Let_def)
  let ?t = "clientID s \<in> svgTexts v"
  from assms d obtain v1 v2 v3 v4 v5 v6 where
    1: "patch_visibility s d ?t v = Inr v1"
    and 2: "patch_attr (zOrder d \<noteq> zOrder s) (clientID s) (SetZOrderAttr (clientID s) (zOrder s)) v1 = Inr v2"
    and 3: "patch_attr (occluded d \<noteq> occluded s) (clientID s)
              (SetOccludedClass (clientID s) (occluded s)) v2 = Inr v3"
    and 4: "patch_pinned s d v3 = Inr v4"
    and 5: "patch_geometry s d v4 = Inr v5"
    and 6: "patch_color s d (patch_text s d ?t v5) = Inr v6"
    and v': "save_drawn s v6 = v'"
    apply (simp add: updateObject_def Let_def and_then_Inr)
    apply (elim exE conjE)
    apply blast
    done
  have "calm_step v v1" using 1 by (rule dom_calm [OF patch_visibility_dom])
  moreover have "calm_step v1 v2" using 2 by (rule dom_calm [OF patch_attr_dom])
  moreover have "calm_step v2 v3" using 3 by (rule dom_calm [OF patch_attr_dom])
  moreover have "calm_step v3 v4" using 4 by (rule patch_pinned_calm)
  moreover have "calm_step v4 v5" using 5 by (rule dom_calm [OF patch_geometry_dom])
  moreover have "calm_step v5 v6"
    using patch_text_dom patch_color_dom [OF 6] by (rule dom_calm [OF dom_step_trans])
  ultimately have "calm_step v v6" by (blast intro: calm_step_trans)
  with d show ?thesis using v' [symmetric] by (rule that)
qed

lemma removed_ids_eq: "removed_ids s = clientID s # element_ids s"
  by (cases s) (simp add: element_ids_def)

lemma removed_ids_list_set:
  "set (removed_ids_list ss) = (\<Union>s\<in>set ss. insert (clientID s) (set (element_ids s)))"
  by (induction ss) (auto simp: removed_ids_eq)

lemma remove_shape_drawn [simp]: "drawnStates (remove_shape cid v) = drawnStates v"
  by (simp add: remove_shape_def Let_def)

lemma drop_drawn_map:
  "map_of (drawnStates (drop_drawn cid v)) = (map_of (drawnStates v))(cid := None)"
  by (auto simp: drop_drawn_def delete_conv')

lemma deleteObject_drawn:
  "deleteObject s v = Inr v' \<Longrightarrow>
     map_of (drawnStates v') k = (if k \<in> set (removed_ids s) then None else map_of (drawnStates v) k)"
  "deleteObjects ss v = Inr v' \<Longrightarrow>
     map_of (drawnStates v') k =
       (if k \<in> set (removed_ids_list ss) then None else map_of (drawnStates v) k)"
proof (induction s v and ss v arbitrary: v' and v' rule: deleteObject_deleteObjects.induct)
  case (1 cid st pts rot occ hid out lk pin z upd fr lid col gid gcol ats ds src els v)
  from 1(2) obtain v1 v2 where
    a: "(if cid \<in> svgTexts v then deleteText cid v else Inr v) = Inr v1"
    and b: "(if st = ''skeleton'' then deleteObjects els v1 else Inr v1) = Inr v2"
    and c: "v' = drop_drawn cid (remove_shape cid v2)"
    by (auto split: sum.splits)
  from a have d1: "drawnStates v1 = drawnStates v"
    by (auto split: if_splits dest!: deleteText_step label_step_fields(4))
  have d2: "map_of (drawnStates v2) k =
      (if st = ''skeleton'' \<and> k \<in> set (removed_ids_list els) then None else map_of (drawnStates v1) k)"
  proof (cases "st = ''skeleton''")
    case True
    with b have "deleteObjects els v1 = Inr v2" by simp
    from 1(1) [OF a True this] True show ?thesis by simp
  next
    case False
    with b show ?thesis by simp
  qed
  show ?case unfolding c by (simp add: drop_drawn_map d2 d1)
next
  case (2 v)
  then show ?case by simp
next
  case (3 s ss v)
  from 3(3) obtain w where w: "deleteObject s v = Inr w" and r: "deleteObjects ss w = Inr v'"
    by (auto split: sum.splits)
  from 3(1) [OF w] 3(2) [OF w r] show ?case by simp
qed

lemma save_drawn_map:
  "map_of (drawnStates (save_drawn s v)) = (map_of (drawnStates v))(clientID s \<mapsto> saveState s)"
  by (simp add: save_drawn_def update_conv')

lemma addSkeleton_elements_drawn [simp]:
  "drawnStates (addSkeleton_elements sid es v) = drawnStates v"
  by (induction es arbitrary: v) simp_all

lemma addObject_drawn:
  assumes "addObject dat s v = Inr v'"
  shows "map_of (drawnStates v') =
     (if drawable (shapeType s) then (map_of (drawnStates v))(clientID s \<mapsto> saveState s)
      else map_of (drawnStates v))"
proof (cases "drawable (shapeType s)")
  case False
  with assms show ?thesis by (simp add: addObject_def)
next
  case True
  let ?v1 = "if shapeType s = ''skeleton'' then addSkeleton s v
             else emit (Dom (AddShape (clientID s) (shapeType s))) v"
  let ?v2 = "?v1\<lparr>svgShapes := insert (clientID s) (svgShapes ?v1)\<rparr>"
  from assms True obtain v3 where
    3: "(if dat then updateTextPosition (clientID s) (store_text s ?v2) else Inr ?v2) = Inr v3"
    and v': "v' = save_drawn s v3"
    by (auto simp: addObject_def Let_def and_then_Inr)
  have "drawnStates v3 = drawnStates ?v2"
  proof (cases dat)
    case True
    with 3 have "label_step (store_text s ?v2) v3" by (auto dest: updateTextPosition_step)
    with store_text_step have "label_step ?v2 v3" by (rule label_step_trans)
    then show ?thesis by (rule label_step_fields)
  next
    case False
    with 3 show ?thesis by simp
  qed
  then have "drawnStates v3 = drawnStates v" by (simp add: addSkeleton_def)
  with True show ?thesis unfolding v' by (simp add: save_drawn_map)
qed

lemma addObjects_drawn_other:
  "addObjects ss v = Inr v' \<Longrightarrow> k \<notin> clientID ` set ss \<Longrightarrow>
     map_of (drawnStates v') k = map_of (drawnStates v) k"
  unfolding addObjects_def
proof (induction ss arbitrary: v)
  case Nil
  then show ?case by simp
next
  case (Cons s ss)
  from Cons(2) obtain w where w: "addObject (displayAllText (configuration v)) s v = Inr w"
    and r: "forEach (addObject (displayAllText (configuration v))) ss w = Inr v'"
    by (auto split: sum.splits)
  from addObject_build [OF w] have "configuration w = configuration v"
    by (simp add: build_step_def scene_step_def)
  with Cons(1) [of w] r Cons(3) have "map_of (drawnStates v') k = map_of (drawnStates w) k" by simp
  with addObject_drawn [OF w] Cons(3) show ?case by simp
qed

lemma addObjects_drawn_member:
  "addObjects ss v = Inr v' \<Longrightarrow> s \<in> set ss \<Longrightarrow> drawable (shapeType s) \<Longrightarrow>
   distinct (map clientID ss) \<Longrightarrow> map_of (drawnStates v') (clientID s) = Some (saveState s)"
proof (induction ss arbitrary: v)
  case Nil
  then show ?case by simp
next
  case (Cons x ss)
  from Cons(2) obtain w where w: "addObject (displayAllText (configuration v)) x v = Inr w"
    and r: "forEach (addObject (displayAllText (configuration v))) ss w = Inr v'"
    by (auto simp: addObjects_def split: sum.splits)
  from addObject_build [OF w] have conf: "configuration w = configuration v"
    by (simp add: build_step_def scene_step_def)
  from r conf have r': "addObjects ss w = Inr v'" by (simp add: addObjects_def)
  show ?case
  proof (cases "s = x")
    case True
    with Cons(5) have "clientID s \<notin> clientID ` set ss" by auto
    from addObjects_drawn_other [OF r' this] addObject_drawn [OF w] True Cons(4)
    show ?thesis by simp
  next
    case False
    with Cons(3) have "s \<in> set ss" by simp
    with Cons(1) [OF r'] Cons(4) Cons(5) show ?thesis by simp
  qed
qed

lemma updateObject_drawn:
  assumes "updateObject s v = Inr v'"
  shows "map_of (drawnStates v') = (map_of (drawnStates v))(clientID s \<mapsto> saveState s)"
  using assms
proof (cases rule: updateObject_cases)
  case (1 d w)
  from 1(2) have "drawnStates w = drawnStates v" by (simp add: calm_step_def soft_step_def)
  then show ?thesis unfolding 1(3) by (simp add: save_drawn_map)
qed

lemma updateObjects_drawn_other:
  "updateObjects ss v = Inr v' \<Longrightarrow> k \<notin> clientID ` set ss \<Longrightarrow>
     map_of (drawnStates v') k = map_of (drawnStates v) k"
  unfolding updateObjects_def
proof (induction ss arbitrary: v)
  case Nil
  then show ?case by simp
next
  case (Cons s ss)
  from Cons(2) obtain w where w: "updateObject s v = Inr w"
    and r: "forEach updateObject ss w = Inr v'"
    by (auto split: sum.splits)
  from Cons(1) [OF r] Cons(3) have "map_of (drawnStates v') k = map_of (drawnStates w) k" by simp
  with updateObject_drawn [OF w] Cons(3) show ?case by simp
qed

lemma updateObjects_drawn_member:
  "updateObjects ss v = Inr v' \<Longrightarrow> s \<in> set ss \<Longrightarrow> distinct (map clientID ss) \<Longrightarrow>
     map_of (drawnStates v') (clientID s) = Some (saveState s)"
proof (induction ss arbitrary: v)
  case Nil
  then show ?case by simp
next
  case (Cons x ss)
  from Cons(2) obtain w where w: "updateObject x v = Inr w"
    and r: "updateObjects ss w = Inr v'"
    by (auto simp: updateObjects_def split: sum.splits)
  show ?case
  proof (cases "s = x")
    case True
    with Cons(4) have "clientID s \<notin> clientID ` set ss" by auto
    from updateObjects_drawn_other [OF r this] updateObject_drawn [OF w] True
    show ?thesis by simp
  next
    case False
    with Cons(3) have "s \<in> set ss" by simp
    with Cons(1) [OF r] Cons(4) show ?thesis by simp
  qed
qed

lemma saveState_fields [simp]:
  "clientID (saveState s) = clientID s" "updated (saveState s) = updated s"
  "frame (saveState s) = frame s" "shapeType (saveState s) = shapeType s"
  "points (saveState s) = points s"
  by (cases s; simp)+

lemma setupObjects_cases:
  assumes "setupObjects L v = Inr v'"
  obtains (unchanged) "created_of v L = []" "updated_of v L = []" "deleted_of v L = []" "v' = v"
  | (changed) v1 v2 v3 v4 v5 v6 v7 where
      "deleted_of v L \<noteq> [] \<or> updated_of v L \<noteq> [] \<or> created_of v L \<noteq> []"
      "(if ae_clientID (activeElement v) \<noteq> None then deactivate v else Inr v) = Inr v1"
      "deleteObjects (deleted_of v L) v1 = Inr v2"
      "addObjects (created_of v L) v2 = Inr v3"
      "updateObjects (filter (\<lambda>s. shapeType s \<noteq> ''skeleton'') (updated_of v L)) v3 = Inr v4"
      "deleteObjects (filter (\<lambda>s. shapeType s = ''skeleton'') (updated_of v L)) v4 = Inr v5"
      "addObjects (filter (\<lambda>s. shapeType s = ''skeleton'') (updated_of v L)) v5 = Inr v6"
      "reactivate L (sortObjects v6) = Inr v7"
      "v' = emit (Call AutoborderHandler_updateObjects) v7"
proof (cases "deleted_of v L \<noteq> [] \<or> updated_of v L \<noteq> [] \<or> created_of v L \<noteq> []")
  case False
  with assms have "v' = v" by (simp add: setupObjects_def Let_def)
  with False show ?thesis by (auto intro: unchanged)
next
  case True
  with assms have "\<exists>v1 v2 v3 v4 v5 v6 v7.
      (if ae_clientID (activeElement v) \<noteq> None then deactivate v else Inr v) = Inr v1 \<and>
      deleteObjects (deleted_of v L) v1 = Inr v2 \<and>
      addObjects (created_of v L) v2 = Inr v3 \<and>
      updateObjects (filter (\<lambda>s. shapeType s \<noteq> ''skeleton'') (updated_of v L)) v3 = Inr v4 \<and>
      deleteObjects (filter (\<lambda>s. shapeType s = ''skeleton'') (updated_of v L)) v4 = Inr v5 \<and>
      addObjects (filter (\<lambda>s. shapeType s = ''skeleton'') (updated_of v L)) v5 = Inr v6 \<and>
      reactivate L (sortObjects v6) = Inr v7 \<and>
      v' = emit (Call AutoborderHandler_updateObjects) v7"
    apply (simp add: setupObjects_def Let_def and_then_Inr del: not_None_eq split del: if_split)
    apply (elim exE conjE)
    apply (intro exI conjI)
           apply assumption+
    apply (erule sym)
    done
  then obtain v1 v2 v3 v4 v5 v6 v7 where
      "(if ae_clientID (activeElement v) \<noteq> None then deactivate v else Inr v) = Inr v1"
      "deleteObjects (deleted_of v L) v1 = Inr v2"
      "addObjects (created_of v L) v2 = Inr v3"
      "updateObjects (filter (\<lambda>s. shapeType s \<noteq> ''skeleton'') (updated_of v L)) v3 = Inr v4"
      "deleteObjects (filter (\<lambda>s. shapeType s = ''skeleton'') (updated_of v L)) v4 = Inr v5"
      "addObjects (filter (\<lambda>s. shapeType s = ''skeleton'') (updated_of v L)) v5 = Inr v6"
      "reactivate L (sortObjects v6) = Inr v7"
      "v' = emit (Call AutoborderHandler_updateObjects) v7"
    by (elim exE conjE)
  with True show ?thesis by (rule changed)
qed

lemma activate_sets_active:
  assumes "activate ae v = Inr v'"
  shows "ae_clientID (activeElement v') = ae_clientID ae"
proof -
  from assms obtain v1 v2 where 1: "release_previous ae v = Inr v1"
    and 2: "claim_shape ae v1 = Inr v2" and v': "v' = claim_attribute ae v2"
    by (auto simp: activate_def and_then_Inr)
  from 1 have a1: "ae_clientID (activeElement v1) = None \<or>
      ae_clientID (activeElement v1) = ae_clientID ae"
    by (auto simp: release_previous_def split: option.splits if_splits dest: deactivate_active(1))
  from 2 a1 have "ae_clientID (activeElement v2) = ae_clientID ae"
    by (auto simp: claim_shape_def and_then_Inr split: option.splits if_splits)
  then show ?thesis unfolding v'
    by (simp add: claim_attribute_def activateAttribute_def Let_def split: option.splits)
qed

lemma updateObjects_calm: "updateObjects ss v = Inr v' \<Longrightarrow>
   scene_step v v' \<and> (ae_clientID (activeElement v) = None \<longrightarrow> activeElement v' = activeElement v)"
  unfolding updateObjects_def
proof (induction ss arbitrary: v)
  case Nil
  then show ?case by simp
next
  case (Cons s ss)
  from Cons(2) obtain w where w: "updateObject s v = Inr w"
    and r: "forEach updateObject ss w = Inr v'"
    by (auto split: sum.splits)
  from w have "scene_step v w \<and>
      (ae_clientID (activeElement v) = None \<longrightarrow> activeElement w = activeElement v)"
  proof (cases rule: updateObject_cases)
    case (1 d x)
    then show ?thesis
      by (auto simp: calm_step_def save_drawn_def soft_step_def scene_step_def)
  qed
  with Cons(1) [OF r] show ?case by (auto intro: scene_step_trans)
qed

lemma build_scene: "build_step v v' \<Longrightarrow> scene_step v v'"
  by (simp add: build_step_def)

lemma build_active: "build_step v v' \<Longrightarrow> activeElement v' = activeElement v"
  by (simp add: build_step_def)

lemma reactivate_scene: "reactivate L v = Inr v' \<Longrightarrow> scene_step v v'"
  by (auto simp: reactivate_def split: option.splits if_splits dest!: activate_soft soft_scene)

lemma scene_step_effects: "scene_step a b \<Longrightarrow> scene_step b c \<Longrightarrow>
    new_effects a c = new_effects a b @ new_effects b c"
  by (auto simp: scene_step_def new_effects_def)

lemma created_of_set: "set (created_of v L) = {s \<in> set L. map_of (drawnStates v) (clientID s) = None}"
  by (auto simp: created_of_def)

lemma updated_of_set:
  "set (updated_of v L) = {s \<in> set L. \<exists>d. map_of (drawnStates v) (clientID s) = Some d \<and>
      (updated d \<noteq> updated s \<or> frame d \<noteq> frame s)}"
  by (auto simp: updated_of_def split: option.splits)

lemma set_map_filter: "set (List.map_filter f xs) = {y. \<exists>x\<in>set xs. f x = Some y}"
  by (induction xs) (auto simp: map_filter_simps split: option.splits)

lemma deleted_of_set:
  "set (deleted_of v L) = {d. \<exists>k. k \<notin> clientID ` set L \<and> map_of (drawnStates v) k = Some d}"
proof -
  have keys: "set (object_keys (drawnStates v)) = fst ` set (drawnStates v)"
    by (simp add: object_keys_def)
  have "set (deleted_of v L) =
      {d. \<exists>k \<in> fst ` set (drawnStates v). k \<notin> clientID ` set L \<and> map_of (drawnStates v) k = Some d}"
    unfolding deleted_of_def set_map_filter by (auto simp: keys)
  also have "\<dots> = {d. \<exists>k. k \<notin> clientID ` set L \<and> map_of (drawnStates v) k = Some d}"
  proof -
    have "\<And>k d. map_of (drawnStates v) k = Some d \<Longrightarrow> k \<in> fst ` set (drawnStates v)"
      by (rule image_eqI [where x = "(k, d)" for k d]) (auto dest: map_of_SomeD)
    then show ?thesis by blast
  qed
  finally show ?thesis .
qed

lemma distinct_ids:
  "distinct (map clientID L) \<Longrightarrow> s \<in> set L \<Longrightarrow> t \<in> set L \<Longrightarrow> clientID t = clientID s \<Longrightarrow> t = s"
  by (auto simp: distinct_map dest: inj_onD)

lemma distinct_filter_ids: "distinct (map clientID L) \<Longrightarrow> distinct (map clientID (filter P L))"
  by (simp add: distinct_map_filter)

lemma strip_not_change: "strip_op e \<Longrightarrow> \<not> shape_change e"
  by (cases e rule: shape_change.cases) simp_all

lemma store_ok_entry: "store_ok v \<Longrightarrow> map_of (drawnStates v) k = Some d \<Longrightarrow> clientID d = k"
  by (auto simp: store_ok_def list_all_iff dest!: map_of_SomeD)

lemma elements_apart_stored:
  "elements_apart v L \<Longrightarrow> map_of (drawnStates v) k = Some d \<Longrightarrow> x \<in> set (element_ids d) \<Longrightarrow>
     x \<notin> clientID ` set L"
  by (force simp: elements_apart_def list_all_iff dest!: map_of_SomeD)

lemma elements_apart_incoming:
  "elements_apart v L \<Longrightarrow> s \<in> set L \<Longrightarrow> x \<in> set (element_ids s) \<Longrightarrow> x \<notin> clientID ` set L"
  by (force simp: elements_apart_def list_all_iff)

lemma pass_store:
  assumes ok: "store_ok v" and dist: "distinct (map clientID L)" and apart: "elements_apart v L"
    and 1: "(if ae_clientID (activeElement v) \<noteq> None then deactivate v else Inr v) = Inr v1"
    and 2: "deleteObjects (deleted_of v L) v1 = Inr v2"
    and 3: "addObjects (created_of v L) v2 = Inr v3"
    and 4: "updateObjects (filter (\<lambda>s. shapeType s \<noteq> ''skeleton'') (updated_of v L)) v3 = Inr v4"
    and 5: "deleteObjects (filter (\<lambda>s. shapeType s = ''skeleton'') (updated_of v L)) v4 = Inr v5"
    and 6: "addObjects (filter (\<lambda>s. shapeType s = ''skeleton'') (updated_of v L)) v5 = Inr v6"
  shows pass_kept: "\<And>s. s \<in> set L \<Longrightarrow> s \<notin> set (created_of v L) \<Longrightarrow> s \<notin> set (updated_of v L) \<Longrightarrow>
      map_of (drawnStates v6) (clientID s) = map_of (drawnStates v) (clientID s)"
    and pass_saved: "\<And>s. s \<in> set (created_of v L) \<and> drawable (shapeType s) \<or> s \<in> set (updated_of v L) \<Longrightarrow>
      map_of (drawnStates v6) (clientID s) = Some (saveState s)"
    and pass_keys: "\<And>k. map_of (drawnStates v6) k \<noteq> None \<Longrightarrow> k \<in> clientID ` set L"
proof -
  let ?C = "created_of v L" and ?U = "updated_of v L" and ?D = "deleted_of v L"
  let ?N = "filter (\<lambda>s. shapeType s \<noteq> ''skeleton'') ?U"
  let ?S = "filter (\<lambda>s. shapeType s = ''skeleton'') ?U"
  have subC: "set ?C \<subseteq> set L" and subU: "set ?U \<subseteq> set L"
    by (auto simp: created_of_def updated_of_def)
  have CU: "\<And>s. s \<in> set ?C \<Longrightarrow> s \<notin> set ?U"
    by (auto simp: created_of_set updated_of_set)
  have dC: "distinct (map clientID ?C)" and dN: "distinct (map clientID ?N)"
    and dS: "distinct (map clientID ?S)"
    using dist by (simp_all add: created_of_def updated_of_def distinct_map_filter)
  have d1: "drawnStates v1 = drawnStates v"
    using 1 by (auto split: if_splits dest!: deactivate_soft simp: soft_step_def)
  have other: "\<And>s A. s \<in> set L \<Longrightarrow> set A \<subseteq> set L \<Longrightarrow> s \<notin> set A \<Longrightarrow> clientID s \<notin> clientID ` set A"
    using dist by (auto dest: distinct_ids)
  have del_apart: "\<And>k. k \<in> clientID ` set L \<Longrightarrow> k \<notin> set (removed_ids_list ?D)"
  proof
    fix k assume k: "k \<in> clientID ` set L" and "k \<in> set (removed_ids_list ?D)"
    then obtain d where d: "d \<in> set ?D" and kd: "k = clientID d \<or> k \<in> set (element_ids d)"
      by (auto simp: removed_ids_list_set)
    from d obtain k' where k': "k' \<notin> clientID ` set L" and m: "map_of (drawnStates v) k' = Some d"
      by (auto simp: deleted_of_set)
    from store_ok_entry [OF ok m] k' have "clientID d \<notin> clientID ` set L" by simp
    moreover have "k \<in> set (element_ids d) \<Longrightarrow> k \<notin> clientID ` set L"
      using elements_apart_stored [OF apart m] .
    ultimately show False using kd k by blast
  qed
  have sk_apart: "\<And>k. k \<in> clientID ` set L \<Longrightarrow> k \<notin> clientID ` set ?S \<Longrightarrow>
      k \<notin> set (removed_ids_list ?S)"
  proof
    fix k assume k: "k \<in> clientID ` set L" and nk: "k \<notin> clientID ` set ?S"
      and "k \<in> set (removed_ids_list ?S)"
    then obtain s where s: "s \<in> set ?S" and ks: "k = clientID s \<or> k \<in> set (element_ids s)"
      by (auto simp: removed_ids_list_set)
    from s subU have "s \<in> set L" by auto
    from elements_apart_incoming [OF apart this] ks nk s k show False by blast
  qed
  have m2: "\<And>k. map_of (drawnStates v2) k =
      (if k \<in> set (removed_ids_list ?D) then None else map_of (drawnStates v) k)"
    using deleteObject_drawn(2) [OF 2] by (simp add: d1)
  have m3: "\<And>k. k \<notin> clientID ` set ?C \<Longrightarrow> map_of (drawnStates v3) k = map_of (drawnStates v2) k"
    using addObjects_drawn_other [OF 3] .
  have m4: "\<And>k. k \<notin> clientID ` set ?N \<Longrightarrow> map_of (drawnStates v4) k = map_of (drawnStates v3) k"
    using updateObjects_drawn_other [OF 4] .
  have m5: "\<And>k. map_of (drawnStates v5) k =
      (if k \<in> set (removed_ids_list ?S) then None else map_of (drawnStates v4) k)"
    using deleteObject_drawn(2) [OF 5] .
  have m6: "\<And>k. k \<notin> clientID ` set ?S \<Longrightarrow> map_of (drawnStates v6) k = map_of (drawnStates v5) k"
    using addObjects_drawn_other [OF 6] .
  have tail: "\<And>s. s \<in> set L \<Longrightarrow> s \<notin> set ?S \<Longrightarrow>
      map_of (drawnStates v6) (clientID s) = map_of (drawnStates v4) (clientID s)"
  proof -
    fix s assume s: "s \<in> set L" and "s \<notin> set ?S"
    with other [OF s, of ?S] subU have n: "clientID s \<notin> clientID ` set ?S" by auto
    from s have "clientID s \<in> clientID ` set L" by simp
    from sk_apart [OF this n] m6 [OF n] m5 [of "clientID s"]
    show "map_of (drawnStates v6) (clientID s) = map_of (drawnStates v4) (clientID s)" by simp
  qed
  {
    fix s assume s: "s \<in> set L" and nC: "s \<notin> set ?C" and nU: "s \<notin> set ?U"
    from other [OF s subC nC] have a: "clientID s \<notin> clientID ` set ?C" .
    from nU other [OF s, of ?N] subU have b: "clientID s \<notin> clientID ` set ?N" by auto
    from nU have "s \<notin> set ?S" by simp
    from tail [OF s this] m4 [OF b] m3 [OF a] m2 [of "clientID s"] del_apart [of "clientID s"] s
    show "map_of (drawnStates v6) (clientID s) = map_of (drawnStates v) (clientID s)" by simp
  next
    fix s assume h: "s \<in> set ?C \<and> drawable (shapeType s) \<or> s \<in> set ?U"
    then have s: "s \<in> set L" using subC subU by auto
    show "map_of (drawnStates v6) (clientID s) = Some (saveState s)"
    proof (cases "s \<in> set ?S")
      case True
      then have "drawable (shapeType s)" by (simp add: drawable_def)
      from addObjects_drawn_member [OF 6 True this dS] show ?thesis .
    next
      case nS: False
      show ?thesis
      proof (cases "s \<in> set ?U")
        case True
        with nS have "s \<in> set ?N" by simp
        from updateObjects_drawn_member [OF 4 this dN] tail [OF s nS] show ?thesis by simp
      next
        case False
        with h have c: "s \<in> set ?C" and dr: "drawable (shapeType s)" by auto
        from False other [OF s, of ?N] subU have b: "clientID s \<notin> clientID ` set ?N" by auto
        from addObjects_drawn_member [OF 3 c dr dC] m4 [OF b] tail [OF s nS] show ?thesis by simp
      qed
    qed
  next
    fix k assume k: "map_of (drawnStates v6) k \<noteq> None"
    show "k \<in> clientID ` set L"
    proof (rule ccontr)
      assume nk: "k \<notin> clientID ` set L"
      with subC subU have a: "k \<notin> clientID ` set ?C" and b: "k \<notin> clientID ` set ?N"
        and c: "k \<notin> clientID ` set ?S" by auto
      from k m6 [OF c] m5 [of k] have "map_of (drawnStates v4) k \<noteq> None" by (simp split: if_splits)
      with m4 [OF b] m3 [OF a] m2 [of k] obtain d where
        nr: "k \<notin> set (removed_ids_list ?D)" and d: "map_of (drawnStates v) k = Some d"
        by (auto split: if_splits)
      from d nk have "d \<in> set ?D" by (auto simp: deleted_of_set)
      moreover from store_ok_entry [OF ok d] have "clientID d = k" .
      ultimately have "k \<in> set (removed_ids_list ?D)" by (auto simp: removed_ids_list_set)
      with nr show False ..
    qed
  }
qed

lemmas model_defs = setupObjects_def created_of_def updated_of_def deleted_of_def object_keys_def
  constructed_def controller_with_def default_configuration_def plain_object_def
  and_then_def addObjects_def addObject_def drawable_def save_drawn_def sortObjects_def
  reactivate_def deleteText_def updateTextPosition_def store_text_def
  activate_def release_previous_def claim_shape_def claim_attribute_def activateShape_def
  find_state_def set_pointer_events_def ensure_text_def install_affordances_def
  on_shape_def stateIsLocked_def deactivate_def deactivateAttribute_def deactivateShape_def
  strip_affordances_def drop_label_def clear_active_def activateAttribute_def
  emit_def set_mode_def mode_def List.map_filter_def updateObjects_def updateObject_def
  patch_visibility_def patch_attr_def patch_pinned_def patch_geometry_def patch_color_def
  patch_text_def deactivate_activate_def addSkeleton_def remove_shape_def drop_drawn_def
  isInnerHidden_def translateToCanvas_def showDirection_def new_effects_def
  store_ok_def elements_apart_def creatable_def element_ids_def notify_def
  rect1_def rect1_moved_def mask1_def Let_def

lemma reconcile_store:
  assumes "setupObjects L v = Inr v'"
    and "deleted_of v L \<noteq> [] \<or> updated_of v L \<noteq> [] \<or> created_of v L \<noteq> []"
  obtains v1 v2 v3 v4 v5 v6 where
      "(if ae_clientID (activeElement v) \<noteq> None then deactivate v else Inr v) = Inr v1"
      "deleteObjects (deleted_of v L) v1 = Inr v2"
      "addObjects (created_of v L) v2 = Inr v3"
      "updateObjects (filter (\<lambda>s. shapeType s \<noteq> ''skeleton'') (updated_of v L)) v3 = Inr v4"
      "deleteObjects (filter (\<lambda>s. shapeType s = ''skeleton'') (updated_of v L)) v4 = Inr v5"
      "addObjects (filter (\<lambda>s. shapeType s = ''skeleton'') (updated_of v L)) v5 = Inr v6"
      "drawnStates v' = drawnStates v6"
  using assms(1)
proof (cases rule: setupObjects_cases)
  case unchanged
  with assms(2) show ?thesis by simp
next
  case (changed v1 v2 v3 v4 v5 v6 v7)
  from changed(8) have "soft_step any_op (sortObjects v6) v7"
    by (auto simp: reactivate_def split: option.splits if_splits dest: activate_soft)
  then have "drawnStates v' = drawnStates v6" unfolding changed(9) by (simp add: soft_step_def)
  with changed(2-7) show ?thesis by (rule that)
qed

section \<open>Idempotence of reconciliation\<close>

text \<open>
  Claim C1.  Reconciling the same list twice: let the incoming list have pairwise
  distinct identifiers, let every stored drawn state sit under its own identifier,
  let no skeleton element share an identifier with an object of the list, and let
  every object of the list that is not drawn yet have a shape type that \<open>addObjects\<close>
  draws.  If a pass of \<open>setupObjects\<close> over the list returns, then in the resulting view
  \<open>created\<close>, \<open>updated\<close> and \<open>deleted\<close> are empty for the same list, and a second pass
  returns that view unchanged: no effect is added to the trace.
\<close>

theorem reconcile_idempotent:
  assumes ok: "store_ok v" and dist: "distinct (map clientID L)" and apart: "elements_apart v L"
    and cre: "creatable v L" and run: "setupObjects L v = Inr v'"
  shows "created_of v' L = [] \<and> updated_of v' L = [] \<and> deleted_of v' L = [] \<and>
         setupObjects L v' = Inr v'"
proof -
  have lists: "created_of v' L = [] \<and> updated_of v' L = [] \<and> deleted_of v' L = []"
  proof (cases "deleted_of v L \<noteq> [] \<or> updated_of v L \<noteq> [] \<or> created_of v L \<noteq> []")
    case False
    with run have "v' = v" by (simp add: setupObjects_def Let_def)
    with False show ?thesis by simp
  next
    case True
    from run True obtain v1 v2 v3 v4 v5 v6 where
      1: "(if ae_clientID (activeElement v) \<noteq> None then deactivate v else Inr v) = Inr v1"
      and 2: "deleteObjects (deleted_of v L) v1 = Inr v2"
      and 3: "addObjects (created_of v L) v2 = Inr v3"
      and 4: "updateObjects (filter (\<lambda>s. shapeType s \<noteq> ''skeleton'') (updated_of v L)) v3 = Inr v4"
      and 5: "deleteObjects (filter (\<lambda>s. shapeType s = ''skeleton'') (updated_of v L)) v4 = Inr v5"
      and 6: "addObjects (filter (\<lambda>s. shapeType s = ''skeleton'') (updated_of v L)) v5 = Inr v6"
      and d: "drawnStates v' = drawnStates v6"
      by (rule reconcile_store)
    note kept = pass_kept [OF ok dist apart 1 2 3 4 5 6]
    note saved = pass_saved [OF ok dist apart 1 2 3 4 5 6]
    note keys = pass_keys [OF ok dist apart 1 2 3 4 5 6]
    have entry: "\<exists>d'. map_of (drawnStates v') (clientID s) = Some d' \<and>
        updated d' = updated s \<and> frame d' = frame s" if s: "s \<in> set L" for s
    proof (cases "s \<in> set (created_of v L) \<or> s \<in> set (updated_of v L)")
      case True
      moreover have "drawable (shapeType s)" if "s \<in> set (created_of v L)"
        using cre that by (simp add: creatable_def list_all_iff)
      ultimately have "map_of (drawnStates v6) (clientID s) = Some (saveState s)"
        by (intro saved) auto
      then show ?thesis by (simp add: d)
    next
      case False
      then have "map_of (drawnStates v6) (clientID s) = map_of (drawnStates v) (clientID s)"
        using s by (intro kept) auto
      moreover from False s obtain d0 where "map_of (drawnStates v) (clientID s) = Some d0"
        "updated d0 = updated s" "frame d0 = frame s"
        by (auto simp: created_of_set updated_of_set)
      ultimately show ?thesis by (simp add: d)
    qed
    have "created_of v' L = []"
      using entry by (auto simp: created_of_def filter_empty_conv)
    moreover have "updated_of v' L = []"
      using entry by (fastforce simp: updated_of_def filter_empty_conv split: option.splits)
    moreover have "deleted_of v' L = []"
    proof -
      have "set (deleted_of v' L) = {}"
        unfolding deleted_of_set using keys by (auto simp: d)
      then show ?thesis by simp
    qed
    ultimately show ?thesis by simp
  qed
  then show ?thesis by (simp add: setupObjects_def Let_def)
qed

theorem reconcile_idempotent_witness:
  "store_ok (constructed (controller_with [rect1])) \<and> distinct (map clientID [rect1]) \<and>
   elements_apart (constructed (controller_with [rect1])) [rect1] \<and>
   creatable (constructed (controller_with [rect1])) [rect1] \<and>
   setupObjects [rect1] (constructed (controller_with [rect1])) = Inr scene_one \<and>
   setupObjects [rect1] scene_one = Inr scene_one \<and>
   svgShapes scene_one = {1}"
proof -
  have run: "setupObjects [rect1] (constructed (controller_with [rect1])) = Inr scene_one"
    by (simp add: scene_one_def model_defs)
  have hyps: "store_ok (constructed (controller_with [rect1]))" "distinct (map clientID [rect1])"
    "elements_apart (constructed (controller_with [rect1])) [rect1]"
    "creatable (constructed (controller_with [rect1])) [rect1]"
    by (simp_all add: model_defs)
  have shapes: "svgShapes scene_one = {1}" by (simp add: scene_one_def model_defs)
  from reconcile_idempotent [OF hyps run] hyps run shapes show ?thesis by simp
qed

text \<open>
  Claim C1 without the restriction to drawable shape types: \<open>addObjects\<close> skips an object
  whose shape type it does not know and stores no drawn state for it, so the second
  pass over the same list finds it in \<open>created\<close> again, sorts the scene and notifies the
  autoborder handler once more.
\<close>

theorem reconcile_skipped_counterexample:
  "\<not> isl (setupObjects [mask1] (constructed (controller_with [mask1]))) \<and>
   created_of (projr (setupObjects [mask1] (constructed (controller_with [mask1])))) [mask1] = [mask1] \<and>
   new_effects (projr (setupObjects [mask1] (constructed (controller_with [mask1]))))
     (projr (setupObjects [mask1]
        (projr (setupObjects [mask1] (constructed (controller_with [mask1]))))))
     = [Dom SortObjects, Call AutoborderHandler_updateObjects]"
  by (simp add: model_defs)

section \<open>Deactivation precedes deletion and creation\<close>

lemma active_none: "ae_clientID A = None \<Longrightarrow> ae_attributeID A = None \<Longrightarrow>
    A = \<lparr>ae_clientID = None, ae_attributeID = None\<rparr>"
  by (cases A) simp

text \<open>
  Claim C5.  Suppose a pass of \<open>setupObjects\<close> returns, at least one of \<open>created\<close>,
  \<open>updated\<close>, \<open>deleted\<close> is non-empty, and the shape \<open>a\<close> is active.  Then the effects of the
  pass contain the deactivation of \<open>a\<close>, and no shape is added or removed before it.  At
  the end of the pass a shape is active only if its identifier occurs in the incoming
  list and is the active identifier of the controller; in particular, reconciling
  the empty list leaves the active element \<open>{clientID: null, attributeID: null}\<close>.
\<close>

theorem reconcile_deactivates_first:
  assumes run: "setupObjects L v = Inr v'"
    and changes: "deleted_of v L \<noteq> [] \<or> updated_of v L \<noteq> [] \<or> created_of v L \<noteq> []"
    and active: "ae_clientID (activeElement v) = Some a"
  shows "(\<exists>pre post. new_effects v v' = pre @ Dom (DeactivateShape a) # post \<and>
            list_all (\<lambda>e. \<not> shape_change e) pre) \<and>
         (\<forall>c. ae_clientID (activeElement v') = Some c \<longrightarrow>
            c \<in> set (map clientID L) \<and> ae_clientID (c_activeElement (controller v)) = Some c) \<and>
         (L = [] \<longrightarrow> activeElement v' = \<lparr>ae_clientID = None, ae_attributeID = None\<rparr>)"
  using run
proof (cases rule: setupObjects_cases)
  case unchanged
  with changes show ?thesis by simp
next
  case (changed v1 v2 v3 v4 v5 v6 v7)
  from changed(2) active have d: "deactivate v = Inr v1" by simp
  have s01: "soft_step strip_op v v1" using d by (rule deactivate_soft)
  have a1: "activeElement v1 = \<lparr>ae_clientID = None, ae_attributeID = None\<rparr>"
    using deactivate_active [OF d] active by (intro active_none) simp_all
  have s12: "build_step v1 v2" using changed(3) by (rule deleteObject_build)
  have s23: "build_step v2 v3" using changed(4) by (rule addObjects_build)
  have a3: "activeElement v3 = \<lparr>ae_clientID = None, ae_attributeID = None\<rparr>"
    using s12 s23 a1 by (simp add: build_step_def)
  have s34: "scene_step v3 v4" and a4: "activeElement v4 = activeElement v3"
    using updateObjects_calm [OF changed(5)] a3 by simp_all
  have s45: "build_step v4 v5" using changed(6) by (rule deleteObject_build)
  have s56: "build_step v5 v6" using changed(7) by (rule addObjects_build)
  have a6: "activeElement v6 = \<lparr>ae_clientID = None, ae_attributeID = None\<rparr>"
    using s45 s56 a4 a3 by (simp add: build_step_def)
  have s67: "scene_step (sortObjects v6) v7" using changed(8) by (rule reactivate_scene)
  have s66: "scene_step v6 (sortObjects v6)" by (simp add: scene_step_def)
  have s7: "scene_step v7 v'" unfolding changed(9) by (simp add: scene_step_def)
  have s16: "scene_step v1 v6"
    using s12 s23 s34 s45 s56 by (blast intro: scene_step_trans build_scene)
  have s1': "scene_step v1 v'"
    using s16 s66 s67 s7 by (blast intro: scene_step_trans)
  have eff: "new_effects v v' = new_effects v v1 @ new_effects v1 v'"
    using soft_scene [OF s01] s1' by (rule scene_step_effects)
  from deactivate_effect(1) [OF d active] obtain ys zs where
    split: "new_effects v v1 = ys @ Dom (DeactivateShape a) # zs"
    by (auto dest: split_list)
  from soft_step_effects [OF s01] have "list_all strip_op (new_effects v v1)" .
  with split have "list_all (\<lambda>e. \<not> shape_change e) ys"
    by (auto simp: list_all_iff dest: strip_not_change)
  with eff split have first: "\<exists>pre post. new_effects v v' = pre @ Dom (DeactivateShape a) # post \<and>
      list_all (\<lambda>e. \<not> shape_change e) pre"
    by (intro exI [of _ ys] exI [of _ "zs @ new_effects v1 v'"]) simp
  have ctrl: "c_activeElement (controller (sortObjects v6)) = c_activeElement (controller v)"
    using scene_step_ctrl_active [OF soft_scene [OF s01]] scene_step_ctrl_active [OF s16] by simp
  have a': "activeElement v' = activeElement v7" unfolding changed(9) by simp
  have second: "c \<in> set (map clientID L) \<and> ae_clientID (c_activeElement (controller v)) = Some c"
    if c: "ae_clientID (activeElement v') = Some c" for c
  proof (cases "ae_clientID (c_activeElement (controller (sortObjects v6)))")
    case None
    with changed(8) have "v7 = sortObjects v6" by (simp add: reactivate_def)
    with c a' a6 show ?thesis by simp
  next
    case (Some x)
    show ?thesis
    proof (cases "x \<in> set (map clientID L)")
      case False
      with Some changed(8) have "v7 = sortObjects v6" by (simp add: reactivate_def)
      with c a' a6 show ?thesis by simp
    next
      case True
      with Some changed(8) have
        "activate (c_activeElement (controller (sortObjects v6))) (sortObjects v6) = Inr v7"
        by (simp add: reactivate_def)
      from activate_sets_active [OF this] Some c a' have "x = c" by simp
      with True Some ctrl show ?thesis by simp
    qed
  qed
  have third: "activeElement v' = \<lparr>ae_clientID = None, ae_attributeID = None\<rparr>" if "L = []"
  proof -
    from that changed(8) have "v7 = sortObjects v6"
      by (simp add: reactivate_def split: option.splits)
    with a' a6 show ?thesis by simp
  qed
  from first second third show ?thesis by blast
qed

theorem reconcile_deactivates_first_witness:
  "\<not> isl (setupObjects [] scene_one_active) \<and>
   deleted_of scene_one_active [] \<noteq> [] \<and>
   ae_clientID (activeElement scene_one_active) = Some 1 \<and>
   new_effects scene_one_active (projr (setupObjects [] scene_one_active)) =
     [Dom (DeactivateShape 1), Dom (RemoveText 1), Dom SortObjects, Dom (RemoveShape 1),
      Dom SortObjects, Call AutoborderHandler_updateObjects] \<and>
   activeElement (projr (setupObjects [] scene_one_active)) =
     \<lparr>ae_clientID = None, ae_attributeID = None\<rparr>"
proof -
  have nl: "\<not> isl (setupObjects [] scene_one_active)"
    by (simp add: scene_one_active_def scene_one_def model_defs)
  then have run: "setupObjects [] scene_one_active = Inr (projr (setupObjects [] scene_one_active))"
    by (cases "setupObjects [] scene_one_active") simp_all
  have ch: "deleted_of scene_one_active [] \<noteq> [] \<or> updated_of scene_one_active [] \<noteq> []
      \<or> created_of scene_one_active [] \<noteq> []"
    by (simp add: scene_one_active_def scene_one_def model_defs)
  have act: "ae_clientID (activeElement scene_one_active) = Some 1"
    by (simp add: scene_one_active_def scene_one_def model_defs)
  have eff: "new_effects scene_one_active (projr (setupObjects [] scene_one_active)) =
     [Dom (DeactivateShape 1), Dom (RemoveText 1), Dom SortObjects, Dom (RemoveShape 1),
      Dom SortObjects, Call AutoborderHandler_updateObjects]"
    by (simp add: scene_one_active_def scene_one_def model_defs)
  have del: "deleted_of scene_one_active [] \<noteq> []"
    by (simp add: scene_one_active_def scene_one_def model_defs)
  from reconcile_deactivates_first [OF run ch act] nl act eff del show ?thesis
    by simp
qed

section \<open>Frame rules: shapes hidden for a drawing\<close>

lemma flag_step_refl [simp]: "flag_step v v"
  by (simp add: flag_step_def)

lemma flag_step_trans: "flag_step a b \<Longrightarrow> flag_step b c \<Longrightarrow> flag_step a c"
  by (auto simp: flag_step_def)

lemma label_is_dom: "label_op e \<Longrightarrow> is_dom e"
  by (cases e rule: label_op.cases) simp_all

lemma label_all_dom: "list_all label_op es \<Longrightarrow> list_all is_dom es"
  by (induction es) (auto intro: label_is_dom)

lemma label_flag: "label_step v v' \<Longrightarrow> flag_step v v'"
  by (auto simp: label_step_def flag_step_def intro: label_all_dom)

lemma flag_step_emit: "flag_step v (emit (Dom op) v)"
  by (simp add: flag_step_def emit_def)

lemma setupInnerFlags_flag:
  assumes "setupInnerFlags cid False v = Inr v'"
  shows "flag_step v v'"
proof -
  let ?v0 = "v\<lparr>drawHidden := removeAll cid (drawHidden v)\<rparr>"
  have 0: "flag_step v ?v0" by (simp add: flag_step_def)
  show ?thesis
  proof (cases "map_of (drawnStates v) cid")
    case None
    with assms have "v' = ?v0" by (simp add: setupInnerFlags_def Let_def)
    with 0 show ?thesis by simp
  next
    case (Some st)
    show ?thesis
    proof (cases "\<not> outside st \<and> \<not> hidden st")
      case False
      with Some assms have "v' = ?v0" by (auto simp: setupInnerFlags_def Let_def)
      with 0 show ?thesis by simp
    next
      case True
      let ?v1 = "if cid \<in> svgShapes v then emit (Dom (SetHiddenClass cid False)) ?v0 else ?v0"
      have 1: "flag_step ?v0 ?v1" by (simp add: flag_step_emit)
      show ?thesis
      proof (cases "cid \<in> svgTexts v")
        case False
        with True Some assms have "v' = ?v1" by (auto simp: setupInnerFlags_def Let_def)
        with 0 1 show ?thesis by (auto intro: flag_step_trans)
      next
        case t: True
        with True Some assms have
          "updateTextPosition cid (emit (Dom (SetTextHiddenClass cid False)) ?v1) = Inr v'"
          by (auto simp: setupInnerFlags_def Let_def)
        then have "flag_step (emit (Dom (SetTextHiddenClass cid False)) ?v1) v'"
          by (rule label_flag [OF updateTextPosition_step])
        with flag_step_emit [where op = "SetTextHiddenClass cid False" and v = ?v1]
        have "flag_step ?v1 v'" by (rule flag_step_trans)
        with 0 1 show ?thesis by (blast intro: flag_step_trans)
      qed
    qed
  qed
qed

lemma unhide_flag: "forEach (\<lambda>h. setupInnerFlags h False) hs v = Inr v' \<Longrightarrow> flag_step v v'"
  by (rule forEach_step [where f = "\<lambda>h. setupInnerFlags h False"])
     (auto intro: setupInnerFlags_flag flag_step_trans)

lemma dispatched_append [simp]: "dispatched (es @ fs) = dispatched es @ dispatched fs"
  by (induction es rule: dispatched.induct) simp_all

lemma calls_made_append [simp]: "calls_made (es @ fs) = calls_made es @ calls_made fs"
  by (induction es rule: calls_made.induct) simp_all

lemma dom_silent: "list_all is_dom es \<Longrightarrow> dispatched es = [] \<and> calls_made es = []"
  by (induction es rule: dispatched.induct) simp_all

lemma flag_step_obs:
  assumes "flag_step v v1" and "trace v' = trace v1 @ fs"
  shows "dispatched (new_effects v v') = dispatched fs"
    and "calls_made (new_effects v v') = calls_made fs"
proof -
  from assms(1) obtain es where es: "trace v1 = trace v @ es" "list_all is_dom es"
    by (auto simp: flag_step_def)
  with assms(2) dom_silent [OF es(2)] show "dispatched (new_effects v v') = dispatched fs"
    and "calls_made (new_effects v v') = calls_made fs"
    by (simp_all add: new_effects_def)
qed

section \<open>Completion of a drawing gesture\<close>

text \<open>
  Claim C6.  The draw completion callback invoked with \<open>null\<close> data.  It returns whenever no
  shape is hidden for the drawing.  Whenever it returns without the continuation flag,
  it has dispatched exactly one event, \<open>canvas.canceled\<close> (so no \<open>canvas.drawn\<close>), the mode
  is \<open>IDLE\<close> and the controller has been told once to disable drawing.  Whenever it
  returns with the continuation flag set, it has dispatched nothing, has not notified
  the controller and has left the mode as it was.
\<close>

theorem draw_done_null:
  "(drawHidden v = [] \<longrightarrow> \<not> isl (onDrawDone None duration continueDraw v)) \<and>
   (\<forall>v'. onDrawDone None duration continueDraw v = Inr v' \<longrightarrow>
      (continueDraw \<noteq> Some True \<longrightarrow>
         dispatched (new_effects v v') = [Canceled] \<and> mode v' = Mode.IDLE \<and>
         calls_made (new_effects v v') = [Controller_draw False]) \<and>
      (continueDraw = Some True \<longrightarrow>
         dispatched (new_effects v v') = [] \<and> mode v' = mode v \<and>
         calls_made (new_effects v v') = []))"
proof -
  have total: "\<not> isl (onDrawDone None duration continueDraw v)" if "drawHidden v = []"
    using that by (simp add: onDrawDone_def and_then_def)
  have part: "(continueDraw \<noteq> Some True \<longrightarrow>
         dispatched (new_effects v v') = [Canceled] \<and> mode v' = Mode.IDLE \<and>
         calls_made (new_effects v v') = [Controller_draw False]) \<and>
      (continueDraw = Some True \<longrightarrow>
         dispatched (new_effects v v') = [] \<and> mode v' = mode v \<and>
         calls_made (new_effects v v') = [])"
    if run: "onDrawDone None duration continueDraw v = Inr v'" for v'
  proof -
    from run obtain v1 where 1: "forEach (\<lambda>h. setupInnerFlags h False) (drawHidden v) v = Inr v1"
      and v': "v' = finish_draw continueDraw
                  (if continueDraw \<noteq> Some True then emit (Dispatch Canceled) v1 else v1)"
      by (auto simp: onDrawDone_def and_then_Inr)
    from 1 have f: "flag_step v v1" by (rule unhide_flag)
    then have m: "mode v1 = mode v" by (simp add: flag_step_def mode_def)
    show ?thesis
    proof (cases "continueDraw = Some True")
      case True
      with v' have e: "v' = v1" by (simp add: finish_draw_def)
      then have "trace v' = trace v1 @ []" by simp
      from flag_step_obs [OF f this] True e m show ?thesis by simp
    next
      case False
      with v' have t: "trace v' = trace v1 @ [Dispatch Canceled, Call (Controller_draw False)]"
        and "mode v' = Mode.IDLE"
        by (simp_all add: finish_draw_def emit_def set_mode_def mode_def)
      with flag_step_obs [OF f t] False show ?thesis by simp
    qed
  qed
  from total part show ?thesis by blast
qed

theorem draw_done_null_witness:
  "mode draw_scene = Mode.DRAW \<and> drawHidden draw_scene = [] \<and>
   \<not> isl (onDrawDone None 0 None draw_scene) \<and>
   new_effects draw_scene (projr (onDrawDone None 0 None draw_scene)) =
     [Dispatch Canceled, Call (Controller_draw False)] \<and>
   mode (projr (onDrawDone None 0 None draw_scene)) = Mode.IDLE \<and>
   onDrawDone None 0 (Some True) draw_scene = Inr draw_scene"
proof -
  have a: "mode draw_scene = Mode.DRAW" "drawHidden draw_scene = []"
    by (simp_all add: draw_scene_def scene_one_def notify_draw_def model_defs)
  have b: "new_effects draw_scene (projr (onDrawDone None 0 None draw_scene)) =
     [Dispatch Canceled, Call (Controller_draw False)]"
    using a(2) by (simp add: onDrawDone_def finish_draw_def and_then_def new_effects_def
        emit_def set_mode_def)
  have c: "onDrawDone None 0 (Some True) draw_scene = Inr draw_scene"
    using a(2) by (simp add: onDrawDone_def finish_draw_def and_then_def)
  have d: "onDrawDone None 0 None draw_scene = Inr (projr (onDrawDone None 0 None draw_scene))"
    using a(2) by (simp add: onDrawDone_def and_then_def)
  from draw_done_null [of draw_scene 0 None] a b c d show ?thesis by simp
qed

text \<open>
  Claim C10.  The draw completion callback invoked with a payload that carries a numeric
  \<open>clientID\<close> and points.  It returns whenever no shape is hidden for the drawing.
  Whenever it returns and the controller holds an object \<open>state\<close> of that identifier, it
  has dispatched \<open>canvas.canceled\<close> and then \<open>canvas.edited\<close> with \<open>state\<close>, the new points and
  the rotation of \<open>state\<close>, and nothing else: no \<open>canvas.drawn\<close>, and no notification of the
  controller; the mode is \<open>IDLE\<close>.
\<close>

theorem redraw_routes_to_edit:
  assumes "dr_clientID d = Some cid" and "draw_points d = Inr pts"
    and "find_state cid (c_objects (controller v)) = Some state"
  shows "(drawHidden v = [] \<longrightarrow> \<not> isl (onDrawDone (Some d) duration continueDraw v)) \<and>
         (\<forall>v'. onDrawDone (Some d) duration continueDraw v = Inr v' \<longrightarrow>
            dispatched (new_effects v v') = [Canceled, Edited state pts (rotation state)] \<and>
            calls_made (new_effects v v') = [] \<and> mode v' = Mode.IDLE)"
proof -
  have total: "\<not> isl (onDrawDone (Some d) duration continueDraw v)" if "drawHidden v = []"
    using that assms by (simp add: onDrawDone_def and_then_def)
  have part: "dispatched (new_effects v v') = [Canceled, Edited state pts (rotation state)] \<and>
            calls_made (new_effects v v') = [] \<and> mode v' = Mode.IDLE"
    if run: "onDrawDone (Some d) duration continueDraw v = Inr v'" for v'
  proof -
    from run assms(1,2) obtain v1 where
      1: "forEach (\<lambda>h. setupInnerFlags h False) (drawHidden v) v = Inr v1"
      and v': "v' = onEditDone (find_state cid (c_objects (controller v1))) (Some pts) None
                        (emit (Dispatch Canceled) v1)"
      by (auto simp: onDrawDone_def and_then_Inr)
    from 1 have f: "flag_step v v1" by (rule unhide_flag)
    then have "controller v1 = controller v" by (simp add: flag_step_def)
    with v' assms(3) have
      t: "trace v' = trace v1 @ [Dispatch Canceled, Dispatch (Edited state pts (rotation state))]"
      and "mode v' = Mode.IDLE"
      by (simp_all add: onEditDone_def emit_def set_mode_def mode_def)
    with flag_step_obs [OF f t] show ?thesis by simp
  qed
  from total part show ?thesis by blast
qed

theorem redraw_routes_to_edit_witness:
  "dr_clientID redrawn = Some 1 \<and> draw_points redrawn = Inr [0, 0, 5, 5] \<and>
   find_state 1 (c_objects (controller redraw_scene)) = Some rect1 \<and>
   mode redraw_scene = Mode.DRAW \<and> drawHidden redraw_scene = [1] \<and>
   \<not> isl (onDrawDone (Some redrawn) 0 None redraw_scene) \<and>
   new_effects redraw_scene (projr (onDrawDone (Some redrawn) 0 None redraw_scene)) =
     [Dom (SetHiddenClass 1 False), Dispatch Canceled, Dispatch (Edited rect1 [0, 0, 5, 5] 0)] \<and>
   mode (projr (onDrawDone (Some redrawn) 0 None redraw_scene)) = Mode.IDLE"
proof -
  have a: "dr_clientID redrawn = Some 1" "draw_points redrawn = Inr [0, 0, 5, 5]"
    by (simp_all add: redrawn_def draw_points_def)
  have b: "find_state 1 (c_objects (controller redraw_scene)) = Some rect1"
    "mode redraw_scene = Mode.DRAW" "drawHidden redraw_scene = [1]"
    by (simp_all add: redraw_scene_def scene_one_def notify_draw_def setupInnerFlags_def model_defs)
  have nl: "\<not> isl (onDrawDone (Some redrawn) 0 None redraw_scene)"
    by (simp add: redrawn_def redraw_scene_def scene_one_def notify_draw_def setupInnerFlags_def
        onDrawDone_def draw_points_def onEditDone_def model_defs)
  have e: "new_effects redraw_scene (projr (onDrawDone (Some redrawn) 0 None redraw_scene)) =
     [Dom (SetHiddenClass 1 False), Dispatch Canceled, Dispatch (Edited rect1 [0, 0, 5, 5] 0)]"
    by (simp add: redrawn_def redraw_scene_def scene_one_def notify_draw_def setupInnerFlags_def
        onDrawDone_def draw_points_def onEditDone_def model_defs)
  from nl have r: "onDrawDone (Some redrawn) 0 None redraw_scene =
      Inr (projr (onDrawDone (Some redrawn) 0 None redraw_scene))"
    by (cases "onDrawDone (Some redrawn) 0 None redraw_scene") simp_all
  from redraw_routes_to_edit [OF a b(1), of 0 None] a b nl e r show ?thesis by simp
qed

section \<open>Frame rules: notifications\<close>

lemma setupObjects_scene:
  assumes "setupObjects L v = Inr v'"
  shows "scene_step v v'"
  using assms
proof (cases rule: setupObjects_cases)
  case unchanged
  then show ?thesis by simp
next
  case (changed v1 v2 v3 v4 v5 v6 v7)
  have s01: "scene_step v v1" using changed(2)
    by (auto split: if_splits dest: deactivate_soft soft_scene)
  have s12: "scene_step v1 v2" using changed(3) by (rule build_scene [OF deleteObject_build(2)])
  have s23: "scene_step v2 v3" using changed(4) by (rule build_scene [OF addObjects_build])
  have s34: "scene_step v3 v4" using updateObjects_calm [OF changed(5)] by simp
  have s45: "scene_step v4 v5" using changed(6) by (rule build_scene [OF deleteObject_build(2)])
  have s56: "scene_step v5 v6" using changed(7) by (rule build_scene [OF addObjects_build])
  have s66: "scene_step v6 (sortObjects v6)" by (simp add: scene_step_def)
  have s67: "scene_step (sortObjects v6) v7" using changed(8) by (rule reactivate_scene)
  have s7: "scene_step v7 v'" unfolding changed(9) by (simp add: scene_step_def)
  note t = scene_step_trans
  from t [OF s01 t [OF s12 t [OF s23 t [OF s34 t [OF s45 t [OF s56 t [OF s66 t [OF s67 s7]]]]]]]]
  show ?thesis .
qed

lemma fold_controller:
  assumes step: "\<And>x a. controller (f x a) = controller a"
  shows "controller (fold f xs v) = controller v"
  by (induction xs arbitrary: v) (simp_all add: step)

lemma forEach_controller:
  assumes step: "\<And>x a b. f x a = Inr b \<Longrightarrow> controller b = controller a"
  shows "forEach f xs v = Inr v' \<Longrightarrow> controller v' = controller v"
proof (induction xs arbitrary: v)
  case Nil
  then show ?case by simp
next
  case (Cons x xs)
  from Cons(2) obtain w where w: "f x v = Inr w" and r: "forEach f xs w = Inr v'"
    by (auto split: sum.splits)
  from step [OF w] Cons(1) [OF r] show ?case by simp
qed

lemma label_controller: "label_step v v' \<Longrightarrow> controller v' = controller v"
  by (rule label_step_fields)

lemma soft_controller: "soft_step P v v' \<Longrightarrow> controller v' = controller v"
  by (simp add: soft_step_def)

lemma store_text_at_controller [simp]: "controller (store_text_at k s v) = controller v"
  by (rule label_controller [OF store_text_at_step])

lemma config_updated_controller:
  assumes "config_updated v = Inr v'"
  shows "controller v' = controller v"
proof -
  let ?conf = "c_configuration (controller v)"
  let ?old = "configuration v"
  let ?R = "\<lambda>a b :: view. controller b = controller a"
  from assms obtain v1 v3 v5 v6 v7 where
    1: "deactivate v = Inr v1"
    and 3: "(if displayAllText ?conf \<and> \<not> displayAllText ?old
                then Inr (fold (\<lambda>i w. if i \<in> svgTexts w then w
                                       else (case map_of (drawnStates w) i of
                                               Some d \<Rightarrow> store_text_at i d w
                                             | None \<Rightarrow> w))
                            (object_keys (drawnStates (if appearance ?conf \<noteq> appearance ?old
                               then repaint ''updateShapeViews'' v1 else v1)))
                            (if appearance ?conf \<noteq> appearance ?old
                               then repaint ''updateShapeViews'' v1 else v1))
                else if \<not> displayAllText ?conf \<and> displayAllText ?old
                then forEach (\<lambda>i w. if Some i \<noteq> ae_clientID (activeElement v) then deleteText i w else Inr w)
                       (object_keys (drawnStates (if appearance ?conf \<noteq> appearance ?old
                               then repaint ''updateShapeViews'' v1 else v1)))
                       (if appearance ?conf \<noteq> appearance ?old
                               then repaint ''updateShapeViews'' v1 else v1)
                else Inr (if appearance ?conf \<noteq> appearance ?old
                               then repaint ''updateShapeViews'' v1 else v1)) = Inr v3"
    and 5: "(if textContent ?conf \<noteq> textContent ?old
                      then forEach
                             (\<lambda>k w. if k \<in> svgTexts w
                                    then and_then (deleteText k w) (\<lambda>w'.
                                           Inr (case find_state k (c_objects (controller w')) of
                                                  Some st \<Rightarrow> store_text_at k st w'
                                                | None \<Rightarrow> w'))
                                    else Inr w)
                             (object_keys (drawnStates (v3\<lparr>configuration := ?conf\<rparr>)))
                             (v3\<lparr>configuration := ?conf\<rparr>)
                      else Inr (v3\<lparr>configuration := ?conf\<rparr>)) = Inr v5"
    and 6: "(if (displayAllText ?conf \<noteq> displayAllText ?old
                   \<or> textLayout ?conf \<noteq> textLayout ?old \<or> textContent ?conf \<noteq> textContent ?old)
                      then forEach (\<lambda>i w. if i \<in> svgTexts w then updateTextPosition i w else Inr w)
                             (object_keys (drawnStates v5)) v5
                      else Inr v5) = Inr v6"
    and 7: "activate (activeElement v) v6 = Inr v7"
    and v': "v' = repaint ''transformCanvas'' (emit (Call Handlers_configurate) v7)"
    unfolding config_updated_def Let_def and_then_Inr by blast
  let ?v2 = "if appearance ?conf \<noteq> appearance ?old then repaint ''updateShapeViews'' v1 else v1"
  have c1: "controller v1 = controller v" using 1 by (rule soft_controller [OF deactivate_soft])
  have c2: "controller ?v2 = controller v1" by (simp add: repaint_def emit_def)
  have f: "?R w (if i \<in> svgTexts w then w
                  else (case map_of (drawnStates w) i of Some d \<Rightarrow> store_text_at i d w | None \<Rightarrow> w))"
    for i w
    by (simp split: option.splits)
  have g: "?R w w'" if "(if Some i \<noteq> ae_clientID (activeElement v) then deleteText i w else Inr w) = Inr w'"
    for i w w'
    using that by (auto split: if_splits dest: deleteText_step label_controller)
  have c3: "controller v3 = controller ?v2"
  proof (cases "displayAllText ?conf \<and> \<not> displayAllText ?old")
    case True
    with 3 have "v3 = fold (\<lambda>i w. if i \<in> svgTexts w then w
                                       else (case map_of (drawnStates w) i of
                                               Some d \<Rightarrow> store_text_at i d w
                                             | None \<Rightarrow> w)) (object_keys (drawnStates ?v2)) ?v2"
      by simp
    moreover have "?R ?v2 (fold (\<lambda>i w. if i \<in> svgTexts w then w
                                       else (case map_of (drawnStates w) i of
                                               Some d \<Rightarrow> store_text_at i d w
                                             | None \<Rightarrow> w)) (object_keys (drawnStates ?v2)) ?v2)"
      by (rule fold_controller) (rule f)
    ultimately show ?thesis by simp
  next
    case False
    show ?thesis
    proof (cases "\<not> displayAllText ?conf \<and> displayAllText ?old")
      case True
      with False 3 have "forEach (\<lambda>i w. if Some i \<noteq> ae_clientID (activeElement v) then deleteText i w else Inr w)
                       (object_keys (drawnStates ?v2)) ?v2 = Inr v3"
        by (simp split: if_splits)
      then show ?thesis
        by (rule forEach_controller [rotated]) (rule g)
    next
      case F2: False
      with False 3 show ?thesis by (simp split: if_splits)
    qed
  qed
  have h: "?R w w'" if "(if k \<in> svgTexts w
                                    then and_then (deleteText k w) (\<lambda>w'.
                                           Inr (case find_state k (c_objects (controller w')) of
                                                  Some st \<Rightarrow> store_text_at k st w'
                                                | None \<Rightarrow> w'))
                                    else Inr w) = Inr w'" for k w w'
  proof (cases "k \<in> svgTexts w")
    case True
    with that obtain u where u: "deleteText k w = Inr u"
      and w': "w' = (case find_state k (c_objects (controller u)) of
                                                  Some st \<Rightarrow> store_text_at k st u
                                                | None \<Rightarrow> u)"
      by (auto simp: and_then_Inr)
    from u have "controller u = controller w" by (rule label_controller [OF deleteText_step])
    moreover have "controller w' = controller u" unfolding w'
      by (simp split: option.splits)
    ultimately show ?thesis by simp
  next
    case False
    with that show ?thesis by simp
  qed
  have c5: "controller v5 = controller v3"
  proof (cases "textContent ?conf \<noteq> textContent ?old")
    case True
    with 5 have "forEach
                             (\<lambda>k w. if k \<in> svgTexts w
                                    then and_then (deleteText k w) (\<lambda>w'.
                                           Inr (case find_state k (c_objects (controller w')) of
                                                  Some st \<Rightarrow> store_text_at k st w'
                                                | None \<Rightarrow> w'))
                                    else Inr w)
                             (object_keys (drawnStates (v3\<lparr>configuration := ?conf\<rparr>)))
                             (v3\<lparr>configuration := ?conf\<rparr>) = Inr v5" by simp
    then have "?R (v3\<lparr>configuration := ?conf\<rparr>) v5"
      by (rule forEach_controller [rotated]) (rule h)
    then show ?thesis by simp
  next
    case False
    with 5 show ?thesis by auto
  qed
  have k: "?R w w'" if "(if i \<in> svgTexts w then updateTextPosition i w else Inr w) = Inr w'" for i w w'
    using that by (auto split: if_splits dest: updateTextPosition_step label_controller)
  have c6: "controller v6 = controller v5"
  proof (cases "displayAllText ?conf \<noteq> displayAllText ?old
                   \<or> textLayout ?conf \<noteq> textLayout ?old \<or> textContent ?conf \<noteq> textContent ?old")
    case True
    with 6 have "forEach (\<lambda>i w. if i \<in> svgTexts w then updateTextPosition i w else Inr w)
                             (object_keys (drawnStates v5)) v5 = Inr v6" by (simp split: if_splits)
    then show ?thesis by (rule forEach_controller [rotated]) (rule k)
  next
    case False
    with 6 show ?thesis by (simp split: if_splits)
  qed
  have c7: "controller v7 = controller v6" using 7 by (rule soft_controller [OF activate_soft])
  have "controller v' = controller v7" unfolding v' by (simp add: repaint_def emit_def)
  with c1 c2 c3 c5 c6 c7 show ?thesis by simp
qed

lemma setupInnerFlags_controller:
  assumes "setupInnerFlags cid val v = Inr v'"
  shows "controller v' = controller v"
proof (cases val)
  case False
  with assms have "flag_step v v'" by (auto intro: setupInnerFlags_flag)
  then show ?thesis by (simp add: flag_step_def)
next
  case True
  with assms show ?thesis
    by (auto simp: setupInnerFlags_def Let_def and_then_Inr emit_def
        split: if_splits option.splits)
qed

lemma notify_draw_mode:
  assumes "notify_draw v = Inr v'"
  shows "mode v' = mode v \<or>
         (mode v = Mode.IDLE \<and> dd_enabled (c_drawData (controller v)) \<and> mode v' = Mode.DRAW)"
proof (cases "dd_enabled (c_drawData (controller v)) \<and> mode v = Mode.IDLE")
  case False
  with assms show ?thesis
    by (auto simp: notify_draw_def Let_def mode_def emit_def split: if_splits)
next
  case True
  let ?w = "set_mode Mode.DRAW (v\<lparr>cursor := ''crosshair''\<rparr>)"
  from assms True obtain v1 where
    1: "(case dd_redraw (c_drawData (controller v)) of
           Some r \<Rightarrow> setupInnerFlags r True ?w | None \<Rightarrow> Inr ?w) = Inr v1"
    and v': "v' = emit (Call (DrawHandler_draw (c_drawData (controller v)))) v1"
    by (auto simp: notify_draw_def Let_def and_then_Inr)
  from 1 have "controller v1 = controller ?w"
    by (auto split: option.splits dest: setupInnerFlags_controller)
  then have "mode v' = Mode.DRAW" unfolding v' by (simp add: mode_def emit_def set_mode_def)
  with True show ?thesis by simp
qed

lemma notify_interact_mode:
  "mode (notify_interact v) = mode v \<or>
   (mode v = Mode.IDLE \<and> id_enabled (c_interactionData (controller v)) \<and>
    mode (notify_interact v) = Mode.INTERACT)"
  by (auto simp: notify_interact_def Let_def mode_def emit_def set_mode_def)

lemma tail_mode:
  "mode (if b then repaint s v else v) = mode v"
  by (simp add: repaint_def emit_def mode_def)

lemma plain_mode [simp]:
  "mode (emit e w) = mode w" "mode (repaint s w) = mode w" "mode (w\<lparr>cursor := c\<rparr>) = mode w"
  by (simp_all add: mode_def emit_def repaint_def)

lemma notify_objects_mode:
  assumes "notify OBJECTS_UPDATED v = Inr v'"
  shows "mode v' = mode v \<or> mode v' = Mode.IDLE"
proof -
  let ?v0 = "if mode v = Mode.GROUP then emit (Call GroupHandler_resetSelectedObjects) v else v"
  from assms have "\<exists>w. setupObjects (c_objects (controller v)) ?v0 = Inr w \<and> mode v' = mode w"
    apply (simp add: notify_def and_then_Inr split del: if_split)
    apply (elim exE conjE)
    apply (rule exI, rule conjI, assumption)
    apply (auto simp: tail_mode)
    done
  then obtain w where "setupObjects (c_objects (controller v)) ?v0 = Inr w" "mode v' = mode w"
    by blast
  with scene_step_mode [OF setupObjects_scene, of "c_objects (controller v)" ?v0 w]
  have "mode v' = mode ?v0 \<or> mode v' = Mode.IDLE" by simp
  then show ?thesis by (simp add: tail_mode split: if_splits)
qed

lemma notify_mode:
  assumes "notify r v = Inr v'"
  shows "mode v' = mode v \<or> mode v' = Mode.IDLE \<or>
         (mode v = Mode.IDLE \<and>
            (r = UpdateReasons.DRAW \<and> dd_enabled (c_drawData (controller v)) \<and> mode v' = Mode.DRAW \<or>
             r = UpdateReasons.INTERACT \<and> id_enabled (c_interactionData (controller v)) \<and>
               mode v' = Mode.INTERACT)) \<or>
         (r = UpdateReasons.MERGE \<and> c_mergeData (controller v) \<and> mode v' = Mode.MERGE) \<or>
         (r = UpdateReasons.SPLIT \<and> c_splitData (controller v) \<and> mode v' = Mode.SPLIT) \<or>
         (r = UpdateReasons.GROUP \<and> c_groupData (controller v) \<and> mode v' = Mode.GROUP)"
proof (cases r)
  case CONFIG_UPDATED
  with assms obtain w where "config_updated v = Inr w" and "mode v' = mode w"
    by (auto simp: notify_def and_then_Inr)
  with config_updated_controller [of v w] show ?thesis by (simp add: mode_def)
next
  case FITTED_CANVAS
  with assms obtain w where "setupObjects [] v = Inr w" and "mode v' = mode w"
    by (auto simp: notify_def and_then_Inr)
  with scene_step_mode [OF setupObjects_scene, of "[]" v w] show ?thesis by auto
next
  case OBJECTS_UPDATED
  with assms notify_objects_mode [of v v'] show ?thesis by simp
next
  case SHAPE_ACTIVATED
  with assms obtain w where "activate (c_activeElement (controller v)) v = Inr w"
    and "mode v' = mode w"
    by (auto simp: notify_def and_then_Inr)
  with soft_step_mode [OF activate_soft, of "c_activeElement (controller v)" v w]
  show ?thesis by simp
next
  case DRAW
  with assms obtain w where "notify_draw v = Inr w" and "mode v' = mode w"
    by (auto simp: notify_def and_then_Inr)
  with notify_draw_mode [of v w] DRAW show ?thesis by auto
next
  case INTERACT
  with assms have "mode v' = mode (notify_interact v)"
    by (auto simp: notify_def and_then_Inr)
  with notify_interact_mode [of v] INTERACT show ?thesis by auto
next
  case CANCEL
  with assms have "mode v' = Mode.IDLE"
    by (auto simp: notify_def and_then_def notify_cancel_def Let_def set_mode_def mode_def)
  then show ?thesis by simp
next
  case MERGE
  with assms show ?thesis
    by (auto simp: notify_def and_then_def set_mode_def mode_def emit_def split: if_splits)
next
  case SPLIT
  with assms show ?thesis
    by (auto simp: notify_def and_then_def set_mode_def mode_def emit_def split: if_splits)
next
  case GROUP
  with assms show ?thesis
    by (auto simp: notify_def and_then_def set_mode_def mode_def emit_def split: if_splits)
qed (use assms in \<open>auto simp: notify_def and_then_def tail_mode\<close>)

lemma quiet_not_stacked:
  assumes "notify r (v\<lparr>controller := c\<lparr>c_mode := mode v\<rparr>\<rparr>) = Inr v'" and "\<not> grouping (c, r)"
  shows "\<not> stacked (mode v) (mode v')"
proof -
  let ?v0 = "v\<lparr>controller := c\<lparr>c_mode := mode v\<rparr>\<rparr>"
  have m: "mode ?v0 = mode v" by (simp add: mode_def)
  from assms(2) notify_mode [OF assms(1)] show ?thesis
    unfolding m by (auto simp: grouping_def stacked_def)
qed

lemma notify_seq_no_stacking:
  "notify_seq steps v = Inr ms \<Longrightarrow> list_all (\<lambda>s. \<not> grouping s) steps \<Longrightarrow>
   no_stacking (mode v # ms)"
proof (induction steps arbitrary: v ms)
  case Nil
  then show ?case by simp
next
  case (Cons s steps)
  obtain c r where s: "s = (c, r)" by (cases s)
  from Cons(2) s obtain v' ms' where
    1: "notify r (v\<lparr>controller := c\<lparr>c_mode := mode v\<rparr>\<rparr>) = Inr v'"
    and 2: "notify_seq steps v' = Inr ms'" and ms: "ms = mode v' # ms'"
    by (auto split: sum.splits)
  from Cons(3) s have q: "\<not> grouping (c, r)" and rest: "list_all (\<lambda>s. \<not> grouping s) steps"
    by simp_all
  from quiet_not_stacked [OF 1 q] Cons(1) [OF 2 rest] show ?case unfolding ms by simp
qed

section \<open>Mode changes made by notifications\<close>

text \<open>
  Claim C3.  A notification that returns leaves the mode as it was, or leaves \<open>IDLE\<close>, or
  enters \<open>DRAW\<close> or \<open>INTERACT\<close> from \<open>IDLE\<close> on the notification of that name with its data
  enabled, or enters \<open>MERGE\<close>, \<open>SPLIT\<close> or \<open>GROUP\<close> on the notification of that name with its
  data enabled; the last three are entered from every mode.  No notification enters
  \<open>SELECT_REGION\<close>, \<open>ZOOM_CANVAS\<close> or \<open>DRAG_CANVAS\<close>.  Hence in every run of notifications
  none of which switches merging, splitting or grouping on, no busy mode is directly
  followed by a different busy mode.
\<close>

theorem mode_changes:
  "(\<forall>v'. notify r v = Inr v' \<longrightarrow>
      mode v' = mode v \<or> mode v' = Mode.IDLE \<or>
      (mode v = Mode.IDLE \<and>
         (r = UpdateReasons.DRAW \<and> dd_enabled (c_drawData (controller v)) \<and> mode v' = Mode.DRAW \<or>
          r = UpdateReasons.INTERACT \<and> id_enabled (c_interactionData (controller v)) \<and>
            mode v' = Mode.INTERACT)) \<or>
      (r = UpdateReasons.MERGE \<and> c_mergeData (controller v) \<and> mode v' = Mode.MERGE) \<or>
      (r = UpdateReasons.SPLIT \<and> c_splitData (controller v) \<and> mode v' = Mode.SPLIT) \<or>
      (r = UpdateReasons.GROUP \<and> c_groupData (controller v) \<and> mode v' = Mode.GROUP)) \<and>
   (c_mergeData (controller v) \<longrightarrow>
      \<not> isl (notify UpdateReasons.MERGE v) \<and> mode (projr (notify UpdateReasons.MERGE v)) = Mode.MERGE) \<and>
   (c_splitData (controller v) \<longrightarrow>
      \<not> isl (notify UpdateReasons.SPLIT v) \<and> mode (projr (notify UpdateReasons.SPLIT v)) = Mode.SPLIT) \<and>
   (c_groupData (controller v) \<longrightarrow>
      \<not> isl (notify UpdateReasons.GROUP v) \<and> mode (projr (notify UpdateReasons.GROUP v)) = Mode.GROUP) \<and>
   (\<forall>ms. notify_seq steps v = Inr ms \<and> list_all (\<lambda>s. \<not> grouping s) steps \<longrightarrow>
      no_stacking (mode v # ms))"
proof -
  have a: "c_mergeData (controller v) \<longrightarrow>
      \<not> isl (notify UpdateReasons.MERGE v) \<and> mode (projr (notify UpdateReasons.MERGE v)) = Mode.MERGE"
    by (simp add: notify_def and_then_def set_mode_def mode_def emit_def repaint_def)
  have b: "c_splitData (controller v) \<longrightarrow>
      \<not> isl (notify UpdateReasons.SPLIT v) \<and> mode (projr (notify UpdateReasons.SPLIT v)) = Mode.SPLIT"
    by (simp add: notify_def and_then_def set_mode_def mode_def emit_def repaint_def)
  have c: "c_groupData (controller v) \<longrightarrow>
      \<not> isl (notify UpdateReasons.GROUP v) \<and> mode (projr (notify UpdateReasons.GROUP v)) = Mode.GROUP"
    by (simp add: notify_def and_then_def set_mode_def mode_def emit_def repaint_def)
  from a b c notify_mode [of r v] notify_seq_no_stacking [of steps v] show ?thesis by blast
qed

theorem mode_changes_witness:
  "notify_seq [(drawing_controller, UpdateReasons.DRAW), (drawing_controller, OBJECTS_UPDATED),
               (drawing_controller, CANCEL)] (constructed drawing_controller) =
     Inr [Mode.DRAW, Mode.DRAW, Mode.IDLE] \<and>
   no_stacking [Mode.IDLE, Mode.DRAW, Mode.DRAW, Mode.IDLE] \<and>
   mode (constructed drawing_controller) = Mode.IDLE \<and>
   \<not> isl (notify UpdateReasons.DRAW (constructed drawing_controller)) \<and>
   mode (projr (notify UpdateReasons.DRAW (constructed drawing_controller))) = Mode.DRAW"
proof -
  have run: "notify_seq [(drawing_controller, UpdateReasons.DRAW), (drawing_controller, OBJECTS_UPDATED),
               (drawing_controller, CANCEL)] (constructed drawing_controller) =
     Inr [Mode.DRAW, Mode.DRAW, Mode.IDLE]"
    by (simp add: drawing_controller_def notify_draw_def notify_cancel_def model_defs)
  have q: "list_all (\<lambda>s. \<not> grouping s)
      [(drawing_controller, UpdateReasons.DRAW), (drawing_controller, OBJECTS_UPDATED),
       (drawing_controller, CANCEL)]"
    by (simp add: grouping_def)
  have m: "mode (constructed drawing_controller) = Mode.IDLE"
    by (simp add: drawing_controller_def model_defs)
  have d: "\<not> isl (notify UpdateReasons.DRAW (constructed drawing_controller))"
    "mode (projr (notify UpdateReasons.DRAW (constructed drawing_controller))) = Mode.DRAW"
    by (simp_all add: drawing_controller_def notify_draw_def model_defs)
  from mode_changes [of UpdateReasons.DRAW "constructed drawing_controller"
      "[(drawing_controller, UpdateReasons.DRAW), (drawing_controller, OBJECTS_UPDATED),
        (drawing_controller, CANCEL)]"] run q m d
  show ?thesis by simp
qed

text \<open>
  Claim C3 as stated: after \<open>notify(DRAW)\<close> with drawing enabled, \<open>notify(MERGE)\<close> with merging
  enabled puts the view in mode \<open>MERGE\<close> although the mode has not returned to \<open>IDLE\<close>; the
  draw handler is not cancelled.
\<close>

theorem mode_stacking_counterexample:
  "notify_seq [(drawing_controller, UpdateReasons.DRAW), (merging_controller, UpdateReasons.MERGE)]
     (constructed (controller_with [rect1])) = Inr [Mode.DRAW, Mode.MERGE] \<and>
   \<not> no_stacking [Mode.IDLE, Mode.DRAW, Mode.MERGE] \<and>
   mode draw_scene = Mode.DRAW \<and>
   \<not> isl (notify UpdateReasons.MERGE (draw_scene\<lparr>controller := merging_controller\<lparr>c_mode := Mode.DRAW\<rparr>\<rparr>)) \<and>
   mode (projr (notify UpdateReasons.MERGE
     (draw_scene\<lparr>controller := merging_controller\<lparr>c_mode := Mode.DRAW\<rparr>\<rparr>))) = Mode.MERGE \<and>
   new_effects draw_scene (projr (notify UpdateReasons.MERGE
     (draw_scene\<lparr>controller := merging_controller\<lparr>c_mode := Mode.DRAW\<rparr>\<rparr>))) =
     [Call (MergeHandler_merge True)]"
  by (simp add: drawing_controller_def merging_controller_def draw_scene_def scene_one_def
      notify_draw_def stacked_def model_defs)

section \<open>Activating an absent or an already active identifier\<close>




section \<open>Range of the rotation after a resize\<close>

lemma normalize_loop_nonneg:
  assumes "normalize_loop add r = Some x"
  shows "0 \<le> x"
  using assms
  by (rule normalize_loop.raw_induct [rotated, where P = "\<lambda>a r x. 0 \<le> x"])
     (auto split: if_splits)

lemma normalize_loop_returns:
  assumes d: "0 < d" and step: "\<And>x. r \<le> x \<Longrightarrow> x < 0 \<Longrightarrow> x + d \<le> add x 360"
  shows "r \<le> x \<Longrightarrow> \<exists>y. normalize_loop add x = Some y"
proof (induction "nat \<lceil>- x / d\<rceil>" arbitrary: x rule: less_induct)
  case less
  show ?case
  proof (cases "x < 0")
    case False
    then show ?thesis by (subst normalize_loop.simps) simp
  next
    case True
    let ?x' = "add x 360"
    have ge: "x + d \<le> ?x'" using less.prems True by (rule step)
    then have r: "r \<le> ?x'" using d less.prems by linarith
    have "(- ?x') / d \<le> - x / d - 1"
    proof -
      have "- ?x' \<le> - x - d" using ge by simp
      then have "(- ?x') / d \<le> (- x - d) / d" using d by (intro divide_right_mono) simp_all
      also have "(- x - d) / d = - x / d - 1" using d by (simp add: field_simps)
      finally show ?thesis .
    qed
    then have "\<lceil>(- ?x') / d\<rceil> \<le> \<lceil>- x / d - 1\<rceil>" by (rule ceiling_mono)
    also have "\<lceil>- x / d - 1\<rceil> = \<lceil>- x / d\<rceil> - 1" by (rule ceiling_diff_one)
    finally have le: "\<lceil>(- ?x') / d\<rceil> \<le> \<lceil>- x / d\<rceil> - 1" .
    have "0 < (- x) / d" using True d by (intro divide_pos_pos) simp_all
    then have "0 < - x / d" by simp
    then have pos: "0 < \<lceil>- x / d\<rceil>" by (simp only: zero_less_ceiling)
    from le pos have "nat \<lceil>(- ?x') / d\<rceil> < nat \<lceil>- x / d\<rceil>" by linarith
    from less.hyps [OF this r] obtain y where "normalize_loop add ?x' = Some y" ..
    then show ?thesis using True by (subst normalize_loop.simps) simp
  qed
qed

lemma normalize_loop_absorbed: "r < 0 \<Longrightarrow> normalize_loop absorbing_add r = None"
proof (rule ccontr)
  assume neg: "r < 0" and "normalize_loop absorbing_add r \<noteq> None"
  then obtain y where y: "normalize_loop absorbing_add r = Some y" by auto
  from y have "absorbing_add = absorbing_add \<longrightarrow> \<not> r < 0"
    by (rule normalize_loop.raw_induct
          [rotated, where P = "\<lambda>add x z. add = absorbing_add \<longrightarrow> \<not> x < 0"])
       (auto simp: absorbing_add_def split: if_splits)
  with neg show False by simp
qed

lemma js_rem_range:
  assumes a: "0 \<le> a" and b: "0 < b"
  shows "0 \<le> js_rem a b \<and> js_rem a b < b"
proof -
  have q: "\<not> a / b < 0" using a b by (simp add: field_simps)
  have ab: "b * (a / b) = a" using b by simp
  have lo: "of_int \<lfloor>a / b\<rfloor> \<le> a / b" by simp
  have hi: "a / b < of_int \<lfloor>a / b\<rfloor> + 1" by linarith
  have "b * of_int \<lfloor>a / b\<rfloor> \<le> b * (a / b)" using lo b by (intro mult_left_mono) simp_all
  then have l: "b * of_int \<lfloor>a / b\<rfloor> \<le> a" using ab by simp
  have "b * (a / b) < b * (of_int \<lfloor>a / b\<rfloor> + 1)" using hi b by (intro mult_strict_left_mono) simp_all
  then have h: "a < b * of_int \<lfloor>a / b\<rfloor> + b" using ab by (simp add: algebra_simps)
  show ?thesis using q l h by (simp add: js_rem_def)
qed

lemma normalize_rotation_range:
  assumes "normalize_rotation add r = Some x"
  shows "0 \<le> x \<and> x < 360"
proof -
  from assms obtain y where y: "normalize_loop add r = Some y" and x: "x = js_rem y 360"
    by (auto simp: normalize_rotation_def)
  from normalize_loop_nonneg [OF y] show ?thesis unfolding x by (intro js_rem_range) simp_all
qed

lemma normalize_rotation_returns:
  assumes "0 < d" and "\<And>x. r \<le> x \<Longrightarrow> x < 0 \<Longrightarrow> x + d \<le> add x 360"
  shows "normalize_rotation add r \<noteq> None"
proof -
  have "\<exists>y. normalize_loop add r = Some y"
  proof (rule normalize_loop_returns [of d r add r])
    show "0 < d" by fact
    show "x + d \<le> add x 360" if "r \<le> x" "x < 0" for x using that by (rule assms(2))
    show "r \<le> r" by simp
  qed
  then show ?thesis by (auto simp: normalize_rotation_def)
qed

lemma normalize_exact_quarter: "normalize_rotation (+) (- 90) = Some 270"
  by (simp add: normalize_rotation_def js_rem_def
      normalize_loop.simps [of "(+)" "- 90"] normalize_loop.simps [of "(+)" "270"])

lemma normalize_snap_tiny: "normalize_rotation snap_add (- (1 / 4)) = Some 0"
  by (simp add: normalize_rotation_def js_rem_def snap_add_def
      normalize_loop.simps [of snap_add "- (1 / 4)"] normalize_loop.simps [of snap_add "360"])

lemma coincident_angle: "direction_angle p p = 90"
  by (simp add: direction_angle_def vectorLength_def Let_def)

lemma showDirection_flag: "showDirection s v = Inr v' \<Longrightarrow> flag_step v v'"
  by (auto simp: showDirection_def flag_step_emit split: list.splits)

lemma show_texts_flag: "show_texts ts v = Inr v' \<Longrightarrow> flag_step v v'"
  unfolding show_texts_def
proof (induction ts arbitrary: v)
  case Nil
  then show ?case by simp
next
  case (Cons t ts)
  from Cons(2) obtain w where
    w: "updateTextPosition t (emit (Dom (SetTextHiddenClass t False)) v) = Inr w"
    and r: "forEach (\<lambda>cid w. updateTextPosition cid (emit (Dom (SetTextHiddenClass cid False)) w)) ts w
            = Inr v'"
    by (auto split: sum.splits)
  have "flag_step v (emit (Dom (SetTextHiddenClass t False)) v)" by (rule flag_step_emit)
  moreover from w have "flag_step (emit (Dom (SetTextHiddenClass t False)) v) w"
    by (rule label_flag [OF updateTextPosition_step])
  moreover from r have "flag_step w v'" by (rule Cons(1))
  ultimately show ?case by (blast intro: flag_step_trans)
qed

lemma resizedone_reports:
  assumes "on_resizedone add cid state True shapePoints r unrotated v = Some (Inr v')"
  shows "\<exists>pts x. resize_rotation add r = Some x \<and>
           dispatched (new_effects v v') = [Edited state pts x, ResizeShape (clientID state)]"
proof -
  let ?v1 = "set_mode Mode.IDLE (v\<lparr>removeHooks := removeHooks v - {(cid, RemoveResize)}\<rparr>)"
  let ?off = "c_offset (controller v)"
  from assms obtain v3 x where
    a: "and_then (if shapeType state = ''polygon'' \<or> shapeType state = ''polyline''
                        then showDirection state ?v1 else Inr ?v1)
                (\<lambda>v2. updateTextPosition cid (emit (Dom (SetTextHiddenClass cid False)) v2)) = Inr v3"
    and x: "resize_rotation add r = Some x"
    and b: "(case map_of (drawnStates v3) cid of
               None \<Rightarrow> Inl TypeError
             | Some d \<Rightarrow>
                 and_then (if x \<noteq> 0 then unrotated else Inr shapePoints) (\<lambda>pts.
                   Inr (emit (Dispatch (ResizeShape (clientID state)))
                          (onEditDone (Some state) (Some (translateFromCanvas ?off pts)) (Some x)
                             (v3\<lparr>drawnStates :=
                                   AList.update cid
                                     (set_rotation x (set_points (translateFromCanvas ?off shapePoints) d))
                                     (drawnStates v3)\<rparr>))))) = Inr v'"
    by (auto simp: on_resizedone_def Let_def split: sum.splits option.splits)
  from a obtain v2 where
    2: "(if shapeType state = ''polygon'' \<or> shapeType state = ''polyline''
         then showDirection state ?v1 else Inr ?v1) = Inr v2"
    and 3: "updateTextPosition cid (emit (Dom (SetTextHiddenClass cid False)) v2) = Inr v3"
    by (auto simp: and_then_Inr)
  from b obtain d pts where
    v': "v' = emit (Dispatch (ResizeShape (clientID state)))
               (onEditDone (Some state) (Some (translateFromCanvas ?off pts)) (Some x)
                  (v3\<lparr>drawnStates := AList.update cid
                      (set_rotation x (set_points (translateFromCanvas ?off shapePoints) d))
                      (drawnStates v3)\<rparr>))"
    by (auto simp: and_then_Inr split: option.splits)
  have "flag_step ?v1 v2" using 2 by (auto split: if_splits dest: showDirection_flag)
  moreover have "flag_step v2 (emit (Dom (SetTextHiddenClass cid False)) v2)"
    by (rule flag_step_emit)
  moreover have "flag_step (emit (Dom (SetTextHiddenClass cid False)) v2) v3"
    using 3 by (rule label_flag [OF updateTextPosition_step])
  ultimately have "flag_step ?v1 v3" by (blast intro: flag_step_trans)
  then obtain es where es: "trace v3 = trace v @ es" "list_all is_dom es"
    by (auto simp: flag_step_def set_mode_def)
  have "trace v' = trace v3 @
      [Dispatch (Edited state (translateFromCanvas ?off pts) x),
       Dispatch (ResizeShape (clientID state))]"
    unfolding v' by (simp add: onEditDone_def emit_def set_mode_def)
  with es dom_silent [OF es(2)] x show ?thesis by (simp add: new_effects_def)
qed

lemma skeleton_resizedone_reports:
  assumes "on_skeleton_resizedone add state ts True r eps v = Some (Inr v')"
  shows "\<exists>pts x. normalize_rotation add r = Some x \<and>
           dispatched (new_effects v v') = [Edited state pts x, ResizeShape (clientID state)]"
proof -
  from assms obtain x v1 where x: "normalize_rotation add r = Some x"
    and 1: "show_texts ts v = Inr v1"
    and v': "v' = emit (Dispatch (ResizeShape (clientID state)))
                    (onEditDone (Some state)
                       (Some (if x \<noteq> 0 then points state
                              else skeleton_points (c_offset (controller (set_mode Mode.IDLE v1))) eps state))
                       (Some x) (set_mode Mode.IDLE v1))"
    by (auto simp: on_skeleton_resizedone_def and_then_Inr Let_def split: option.splits)
  from show_texts_flag [OF 1] obtain es where es: "trace v1 = trace v @ es" "list_all is_dom es"
    by (auto simp: flag_step_def)
  have "trace v' = trace v1 @
      [Dispatch (Edited state (if x \<noteq> 0 then points state
                              else skeleton_points (c_offset (controller (set_mode Mode.IDLE v1))) eps state) x),
       Dispatch (ResizeShape (clientID state))]"
    unfolding v' by (simp add: onEditDone_def emit_def set_mode_def)
  with es dom_silent [OF es(2)] x show ?thesis by (simp add: new_effects_def)
qed

section \<open>Angles\<close>

text \<open>
  Claim C8.  The two \<open>resizedone\<close> listeners, of a shape and of a skeleton, compute the
  rotation they report: whenever the normalisation returns, whatever the rounding of the
  addition, the result lies in \<open>[0, 360)\<close>, and it is the rotation of the \<open>canvas.edited\<close>
  event the listener dispatches after a resize.  The normalisation returns when every
  addition of 360 on the way up from the rotation gains at least some fixed positive
  amount.  A completion that passes no rotation to \<open>onEditDone\<close> reports the rotation of
  the object state as it is stored.  The angle of the direction arrow is 90 degrees when
  the first two points coincide: the cosine is left at 0 there, and the sign factor is 1.
\<close>

theorem angle_policy:
  "(\<forall>x. normalize_rotation add r = Some x \<longrightarrow> 0 \<le> x \<and> x < 360) \<and>
   (\<forall>v'. on_resizedone add cid state True shapePoints r unrotated v = Some (Inr v') \<longrightarrow>
      (\<exists>pts x. 0 \<le> x \<and> x < 360 \<and>
         dispatched (new_effects v v') = [Edited state pts x, ResizeShape (clientID state)])) \<and>
   (\<forall>v'. on_skeleton_resizedone add state textList True r elementPoints v = Some (Inr v') \<longrightarrow>
      (\<exists>pts x. 0 \<le> x \<and> x < 360 \<and>
         dispatched (new_effects v v') = [Edited state pts x, ResizeShape (clientID state)])) \<and>
   ((\<exists>d>0. \<forall>x. r \<le> x \<and> x < 0 \<longrightarrow> x + d \<le> add x 360) \<longrightarrow>
      normalize_rotation add r \<noteq> None \<and> resize_rotation add r \<noteq> None) \<and>
   dispatched (new_effects v (onEditDone (Some state) (Some pts) None v)) =
     [Edited state pts (rotation state)] \<and>
   direction_angle p p = 90"
proof -
  have same: "resize_rotation add r = normalize_rotation add r"
    by (simp add: resize_rotation_def)
  have a: "0 \<le> x \<and> x < 360" if "normalize_rotation add r = Some x" for x
    using that by (rule normalize_rotation_range)
  have b: "\<exists>pts x. 0 \<le> x \<and> x < 360 \<and>
         dispatched (new_effects v v') = [Edited state pts x, ResizeShape (clientID state)]"
    if "on_resizedone add cid state True shapePoints r unrotated v = Some (Inr v')" for v'
    using resizedone_reports [OF that] a unfolding same by blast
  have c: "\<exists>pts x. 0 \<le> x \<and> x < 360 \<and>
         dispatched (new_effects v v') = [Edited state pts x, ResizeShape (clientID state)]"
    if "on_skeleton_resizedone add state textList True r elementPoints v = Some (Inr v')" for v'
    using skeleton_resizedone_reports [OF that] a by blast
  have d: "normalize_rotation add r \<noteq> None \<and> resize_rotation add r \<noteq> None"
    if "\<exists>d>0. \<forall>x. r \<le> x \<and> x < 0 \<longrightarrow> x + d \<le> add x 360"
  proof -
    from that obtain d where "0 < d" and "\<And>x. r \<le> x \<Longrightarrow> x < 0 \<Longrightarrow> x + d \<le> add x 360"
      by blast
    then have "normalize_rotation add r \<noteq> None" by (rule normalize_rotation_returns)
    then show ?thesis unfolding same by simp
  qed
  have e: "dispatched (new_effects v (onEditDone (Some state) (Some pts) None v)) =
     [Edited state pts (rotation state)]"
    by (simp add: onEditDone_def new_effects_def emit_def set_mode_def)
  from a b c d e coincident_angle [of p] show ?thesis by blast
qed

theorem angle_policy_witness:
  "normalize_rotation (+) (- 90) = Some 270 \<and>
   resize_rotation (+) (- 90) = Some 270 \<and>
   normalize_rotation snap_add (- (1 / 4)) = Some 0 \<and>
   normalize_loop absorbing_add (- 90) = None \<and>
   on_resizedone (+) 1 rect1 True [0, 0, 10, 10] (- 90) (Inr [1, 1, 9, 9]) scene_one_active \<noteq> None \<and>
   \<not> isl (the (on_resizedone (+) 1 rect1 True [0, 0, 10, 10] (- 90) (Inr [1, 1, 9, 9])
                 scene_one_active)) \<and>
   dispatched (new_effects scene_one_active
      (projr (the (on_resizedone (+) 1 rect1 True [0, 0, 10, 10] (- 90) (Inr [1, 1, 9, 9])
                     scene_one_active)))) =
     [Edited rect1 [1, 1, 9, 9] 270, ResizeShape 1] \<and>
   on_skeleton_resizedone (+) bare_skeleton [] True (- 90) [] (constructed (controller_with [])) =
     Some (Inr (emit (Dispatch (ResizeShape 1))
                  (onEditDone (Some bare_skeleton) (Some [0, 0, 10, 10]) (Some 270)
                     (constructed (controller_with []))))) \<and>
   direction_angle (3, 4) (3, 4) = 90"
proof -
  have q: "resize_rotation (+) (- 90) = Some 270"
    by (simp add: resize_rotation_def normalize_exact_quarter)
  have nn: "on_resizedone (+) 1 rect1 True [0, 0, 10, 10] (- 90) (Inr [1, 1, 9, 9]) scene_one_active
      \<noteq> None"
    "\<not> isl (the (on_resizedone (+) 1 rect1 True [0, 0, 10, 10] (- 90) (Inr [1, 1, 9, 9])
                 scene_one_active))"
    by (simp_all add: on_resizedone_def q onEditDone_def translateFromCanvas_def
        scene_one_active_def scene_one_def model_defs)
  have e: "dispatched (new_effects scene_one_active
      (projr (the (on_resizedone (+) 1 rect1 True [0, 0, 10, 10] (- 90) (Inr [1, 1, 9, 9])
                     scene_one_active)))) =
     [Edited rect1 [1, 1, 9, 9] 270, ResizeShape 1]"
    by (simp add: on_resizedone_def q onEditDone_def translateFromCanvas_def
        scene_one_active_def scene_one_def model_defs)
  have sk: "on_skeleton_resizedone (+) bare_skeleton [] True (- 90) [] (constructed (controller_with [])) =
     Some (Inr (emit (Dispatch (ResizeShape 1))
                  (onEditDone (Some bare_skeleton) (Some [0, 0, 10, 10]) (Some 270)
                     (constructed (controller_with [])))))"
    by (simp add: on_skeleton_resizedone_def normalize_exact_quarter show_texts_def
        bare_skeleton_def plain_object_def and_then_def set_mode_def constructed_def Let_def)
  have prog: "\<exists>d>0. \<forall>x. - 90 \<le> x \<and> x < 0 \<longrightarrow> x + d \<le> x + (360 :: real)"
    by (rule exI [of _ 360]) simp
  from angle_policy [where add = "(+)" and r = "- 90" and cid = 1 and state = rect1
      and shapePoints = "[0, 0, 10, 10]" and unrotated = "Inr [1, 1, 9, 9]"
      and v = scene_one_active and p = "(3, 4)"]
    angle_policy [where add = "(+)" and r = "- 90" and state = bare_skeleton
      and textList = "[]" and elementPoints = "[]" and v = "constructed (controller_with [])"]
    nn e q sk prog normalize_exact_quarter normalize_snap_tiny
    normalize_loop_absorbed [of "- 90"]
  show ?thesis by simp
qed

text \<open>
  Claim C8 as stated: activating a polyline whose first two points are both \<open>(3, 4)\<close> draws
  the direction arrow at 90 degrees, not at 0; and the end of a drag of a rectangle whose
  state carries the rotation 400 reports 400.
\<close>

theorem angle_policy_counterexample:
  "direction_angle (3, 4) (3, 4) = 90 \<and> direction_angle (3, 4) (3, 4) \<noteq> 0 \<and>
   showDirection folded_line (constructed (controller_with [folded_line])) =
     Inr (emit (Dom (ShowDirection 1 90)) (constructed (controller_with [folded_line]))) \<and>
   rotation wound = 400 \<and>
   \<not> isl (on_dragend 1 wound (0, 0) (5, 5) [5, 5, 15, 15] 40 (Inr [5, 5, 15, 15]) wound_scene) \<and>
   dispatched (new_effects wound_scene
     (projr (on_dragend 1 wound (0, 0) (5, 5) [5, 5, 15, 15] 40 (Inr [5, 5, 15, 15]) wound_scene))) =
     [Edited wound [5, 5, 15, 15] 400, DragShape 1]"
  by (simp add: folded_line_def showDirection_def direction_angle_def vectorLength_def
      wound_def wound_scene_def on_dragend_def onEditDone_def translateFromCanvas_def
      real_sqrt_ge_one model_defs)

section \<open>Frame rules: the primitives an operation names\<close>

text \<open>
  Which primitives the effects of an operation name.  Labels are deleted and repositioned
  through the elements of stored drawn states, so the rules for them ask that no stored
  drawn state has an element of the identifier in question.
\<close>

lemma apart_refl [simp]: "apart k v v"
  by (simp add: apart_def)

lemma apart_trans: "apart k a b \<Longrightarrow> apart k b c \<Longrightarrow> apart k a c"
  by (auto simp: apart_def)

lemma apart_emit: "k \<notin> set (effect_ids e) \<Longrightarrow> apart k v (emit e v)"
  by (simp add: apart_def emit_def)

lemma apart_silent: "trace w = trace v \<Longrightarrow> apart k v w"
  by (simp add: apart_def)

lemma apart_then: "apart k v w \<Longrightarrow> trace w' = trace w \<Longrightarrow> apart k v w'"
  by (simp add: apart_def)

lemma apart_emit_after: "apart k v w \<Longrightarrow> k \<notin> set (effect_ids e) \<Longrightarrow> apart k v (emit e w)"
  by (auto simp: apart_def emit_def)

lemma no_element_same: "drawnStates w = drawnStates v \<Longrightarrow> no_element k v \<Longrightarrow> no_element k w"
  by (simp add: no_element_def)

lemma no_element_label:
  assumes "label_step v w" and "no_element k v"
  shows "no_element k w"
  using assms(2) label_step_fields(4) [OF assms(1)] by (simp add: no_element_def)

lemma no_element_entry:
  assumes "no_element k v" and "map_of (drawnStates v) c = Some d" and "shapeType d = ''skeleton''"
  shows "k \<notin> clientID ` set (elements d)"
proof -
  from assms(2) have "(c, d) \<in> set (drawnStates v)" by (rule map_of_SomeD)
  from assms(1) have "\<forall>x\<in>set (drawnStates v). k \<notin> set (element_ids (snd x))"
    by (simp add: no_element_def list_all_iff)
  from bspec [OF this \<open>(c, d) \<in> set (drawnStates v)\<close>]
  have "k \<notin> set (element_ids d)" by simp
  then have "k \<notin> set (removed_ids_list (elements d))" using assms(3) by (simp add: element_ids_def)
  then have "\<forall>x\<in>set (elements d). k \<noteq> clientID x" by (simp add: removed_ids_list_set)
  then show ?thesis by blast
qed

lemma deleteText_rec_apart:
  "deleteText_rec n cid v = Inr v' \<Longrightarrow> no_element k v \<Longrightarrow> cid \<noteq> k \<Longrightarrow> apart k v v'"
  "deleteText_elems n es v = Inr v' \<Longrightarrow> no_element k v \<Longrightarrow> k \<notin> clientID ` set es \<Longrightarrow> apart k v v'"
proof (induction n cid v and n es v arbitrary: v' and v' rule: deleteText_rec_deleteText_elems.induct)
  case (1 cid v)
  then show ?case by simp
next
  case (2 n cid v)
  let ?v1 = "if cid \<in> svgTexts v
             then emit (Dom (RemoveText cid)) (v\<lparr>svgTexts := svgTexts v - {cid}\<rparr>) else v"
  have s1: "apart k v ?v1" using 2(4) by (simp add: apart_def emit_def)
  have d1: "drawnStates ?v1 = drawnStates v" by (simp add: emit_def)
  then have n1: "no_element k ?v1" using 2(3) by (rule no_element_same)
  show ?case
  proof (cases "map_of (drawnStates ?v1) cid")
    case None
    with 2(2) s1 show ?thesis by (simp add: Let_def split: if_splits)
  next
    case (Some d)
    show ?thesis
    proof (cases "shapeType d = ''skeleton''")
      case True
      with Some 2(2) have r: "deleteText_elems n (elements d) ?v1 = Inr v'"
        by (simp add: Let_def split: if_splits)
      from no_element_entry [OF n1 Some True] have "k \<notin> clientID ` set (elements d)" .
      with 2(1) [OF refl Some True r n1] have "apart k ?v1 v'" by blast
      with s1 show ?thesis by (rule apart_trans)
    next
      case False
      with Some 2(2) s1 show ?thesis by (simp add: Let_def split: if_splits)
    qed
  qed
next
  case (3 n v)
  then show ?case by simp
next
  case (4 n e es v)
  from 4(3) obtain w where w: "deleteText_rec n (clientID e) v = Inr w"
    and rest: "deleteText_elems n es w = Inr v'"
    by (auto split: sum.splits)
  from 4(5) have ne: "clientID e \<noteq> k" and nes: "k \<notin> clientID ` set es" by auto
  from deleteText_rec_step(1) [OF w] 4(4) have nw: "no_element k w" by (rule no_element_label)
  from 4(1) [OF w 4(4) ne] 4(2) [OF w rest nw nes] show ?case by (rule apart_trans)
qed

lemma deleteText_apart:
  "deleteText cid v = Inr v' \<Longrightarrow> no_element k v \<Longrightarrow> cid \<noteq> k \<Longrightarrow> apart k v v'"
  unfolding deleteText_def by (rule deleteText_rec_apart)

lemma updateTextPosition_rec_apart:
  "updateTextPosition_rec n cid v = Inr v' \<Longrightarrow> no_element k v \<Longrightarrow> cid \<noteq> k \<Longrightarrow> apart k v v'"
  "updateTextPosition_elems n es v = Inr v' \<Longrightarrow> no_element k v \<Longrightarrow> k \<notin> clientID ` set es
     \<Longrightarrow> apart k v v'"
proof (induction n cid v and n es v arbitrary: v' and v'
    rule: updateTextPosition_rec_updateTextPosition_elems.induct)
  case (1 cid v)
  then show ?case by simp
next
  case (2 n cid v)
  show ?case
  proof (cases "cid \<in> svgShapes v")
    case False
    with 2(2) show ?thesis by simp
  next
    case True
    let ?v1 = "emit (Dom (UpdateTextPosition cid)) v"
    have s1: "apart k v ?v1" using 2(4) by (simp add: apart_emit)
    have n1: "no_element k ?v1" using 2(3) by (simp add: no_element_def emit_def)
    show ?thesis
    proof (cases "map_of (drawnStates ?v1) cid")
      case None
      with 2(2) True s1 show ?thesis by (simp add: Let_def)
    next
      case (Some d)
      show ?thesis
      proof (cases "shapeType d = ''skeleton''")
        case sk: True
        with Some 2(2) True have r: "updateTextPosition_elems n (elements d) ?v1 = Inr v'"
          by (simp add: Let_def)
        from no_element_entry [OF n1 Some sk] have "k \<notin> clientID ` set (elements d)" .
        with 2(1) [OF _ refl Some sk r n1] True have "apart k ?v1 v'" by blast
        with s1 show ?thesis by (rule apart_trans)
      next
        case False
        with Some 2(2) True s1 show ?thesis by (simp add: Let_def)
      qed
    qed
  qed
next
  case (3 n v)
  then show ?case by simp
next
  case (4 n e es v)
  from 4(6) have ne: "clientID e \<noteq> k" and nes: "k \<notin> clientID ` set es" by auto
  show ?case
  proof (cases "clientID e \<in> svgTexts v")
    case True
    with 4(4) obtain w where w: "updateTextPosition_rec n (clientID e) v = Inr w"
      and rest: "updateTextPosition_elems n es w = Inr v'"
      by (auto split: sum.splits)
    from updateTextPosition_rec_step(1) [OF w] 4(5) have nw: "no_element k w"
      by (rule no_element_label)
    from 4(1) [OF True w 4(5) ne] 4(2) [OF True w rest nw nes] show ?thesis by (rule apart_trans)
  next
    case False
    with 4(4) have "updateTextPosition_elems n es v = Inr v'" by simp
    from 4(3) [OF False this 4(5) nes] show ?thesis .
  qed
qed

lemma updateTextPosition_apart:
  "updateTextPosition cid v = Inr v' \<Longrightarrow> no_element k v \<Longrightarrow> cid \<noteq> k \<Longrightarrow> apart k v v'"
  unfolding updateTextPosition_def by (rule updateTextPosition_rec_apart)

lemma addText_apart:
  "k \<notin> set (removed_ids s) \<Longrightarrow> apart k v (addText s v)"
  "k \<notin> set (removed_ids_list ss) \<Longrightarrow> apart k v (addText_elems ss v)"
proof (induction s v and ss v rule: addText_addText_elems.induct)
  case (1 cid st pts rot occ hid out lk pin z upd fr lid col gid gcol ats ds src els v)
  then show ?case by (auto intro!: apart_emit_after)
next
  case (2 v)
  show ?case by simp
next
  case (3 e es v)
  let ?x = "if clientID e \<in> svgTexts v then v
            else (let v' = addText e v in v'\<lparr>svgTexts := insert (clientID e) (svgTexts v')\<rparr>)"
  from 3(3) have ke: "k \<notin> set (removed_ids e)" and kes: "k \<notin> set (removed_ids_list es)" by auto
  have "apart k v ?x"
  proof (cases "clientID e \<in> svgTexts v")
    case True
    then show ?thesis by simp
  next
    case False
    from 3(1) [OF False ke] have "apart k v
        ((addText e v)\<lparr>svgTexts := insert (clientID e) (svgTexts (addText e v))\<rparr>)"
      by (rule apart_then) simp
    with False show ?thesis by (simp add: Let_def)
  qed
  moreover have "apart k ?x (addText_elems es ?x)" using kes by (rule 3(2))
  ultimately have "apart k v (addText_elems es ?x)" by (rule apart_trans)
  then show ?case by (simp only: addText_elems.simps)
qed

lemma store_text_apart: "k \<notin> set (removed_ids s) \<Longrightarrow> apart k v (store_text s v)"
  unfolding store_text_def Let_def by (rule apart_then [OF addText_apart(1)]) simp_all

lemma remove_shape_apart: "cid \<noteq> k \<Longrightarrow> apart k v (remove_shape cid v)"
  by (simp add: remove_shape_def apart_def emit_def set_mode_def Let_def)

lemma delete_keeps: "list_all P (map snd xs) \<Longrightarrow> list_all P (map snd (AList.delete c xs))"
  by (induction xs) auto

lemma update_keeps: "P x \<Longrightarrow> list_all P (map snd xs) \<Longrightarrow> list_all P (map snd (AList.update c x xs))"
  by (induction xs) auto

lemma no_element_drop: "no_element k v \<Longrightarrow> no_element k (drop_drawn cid (remove_shape cid v))"
  by (simp add: no_element_def drop_drawn_def delete_keeps)

lemma removed_ids_saved:
  "removed_ids (saveState s) = removed_ids s"
proof (induction s rule: saveState.induct)
  case (1 cid st pts rot occ hid out lk pin z upd fr lid col gid gcol ats ds src els)
  have "removed_ids_list (map saveState els) = removed_ids_list els" if "st = ''skeleton''"
    using 1 [OF that] by (induction els) simp_all
  then show ?case by simp
qed

lemma element_ids_saved: "element_ids (saveState s) = element_ids s"
  using removed_ids_saved [of s] by (simp add: removed_ids_eq)

lemma no_element_save:
  "no_element k v \<Longrightarrow> k \<notin> set (element_ids s) \<Longrightarrow> no_element k (save_drawn s v)"
  by (simp add: no_element_def save_drawn_def update_keeps element_ids_saved)

lemma removed_ids_Cons:
  "k \<notin> set (removed_ids s) \<longleftrightarrow> clientID s \<noteq> k \<and> k \<notin> set (element_ids s)"
  by (auto simp: removed_ids_eq)

lemma deleteObject_apart:
  "deleteObject s v = Inr v' \<Longrightarrow> no_element k v \<Longrightarrow> k \<notin> set (removed_ids s) \<Longrightarrow>
     apart k v v' \<and> no_element k v'"
  "deleteObjects ss v = Inr v' \<Longrightarrow> no_element k v \<Longrightarrow> k \<notin> set (removed_ids_list ss) \<Longrightarrow>
     apart k v v' \<and> no_element k v'"
proof (induction s v and ss v arbitrary: v' and v' rule: deleteObject_deleteObjects.induct)
  case (1 cid st pts rot occ hid out lk pin z upd fr lid col gid gcol ats ds src els v)
  from 1(4) have ck: "cid \<noteq> k" and ek: "st = ''skeleton'' \<Longrightarrow> k \<notin> set (removed_ids_list els)"
    by auto
  from 1(2) obtain v1 v2 where
    a: "(if cid \<in> svgTexts v then deleteText cid v else Inr v) = Inr v1"
    and b: "(if st = ''skeleton'' then deleteObjects els v1 else Inr v1) = Inr v2"
    and c: "v' = drop_drawn cid (remove_shape cid v2)"
    by (auto split: sum.splits)
  have s1: "apart k v v1 \<and> no_element k v1"
  proof (cases "cid \<in> svgTexts v")
    case True
    with a have d: "deleteText cid v = Inr v1" by simp
    from deleteText_apart [OF d 1(3) ck] no_element_label [OF deleteText_step [OF d] 1(3)]
    show ?thesis by simp
  next
    case False
    with a 1(3) show ?thesis by simp
  qed
  have s2: "apart k v1 v2 \<and> no_element k v2"
  proof (cases "st = ''skeleton''")
    case True
    with b have "deleteObjects els v1 = Inr v2" by simp
    from 1(1) [OF a True this] s1 ek [OF True] show ?thesis by simp
  next
    case False
    with b s1 show ?thesis by simp
  qed
  have "apart k v2 (remove_shape cid v2)" using ck by (rule remove_shape_apart)
  then have "apart k v2 v'" unfolding c by (rule apart_then) (simp add: drop_drawn_def)
  moreover have "no_element k v'" unfolding c using s2 by (simp add: no_element_drop)
  ultimately show ?case using s1 s2 by (blast intro: apart_trans)
next
  case (2 v)
  then show ?case by simp
next
  case (3 s ss v)
  from 3(3) obtain w where w: "deleteObject s v = Inr w" and r: "deleteObjects ss w = Inr v'"
    by (auto split: sum.splits)
  from 3(5) have ks: "k \<notin> set (removed_ids s)" and kss: "k \<notin> set (removed_ids_list ss)" by auto
  from 3(1) [OF w 3(4) ks] have 1: "apart k v w" and nw: "no_element k w" by simp_all
  from 3(2) [OF w r nw kss] 1 show ?case by (blast intro: apart_trans)
qed

lemma addSkeleton_elements_apart:
  "sid \<noteq> k \<Longrightarrow> \<forall>e\<in>set es. clientID e \<noteq> k \<Longrightarrow> apart k v (addSkeleton_elements sid es v)"
proof (induction es arbitrary: v)
  case Nil
  show ?case by simp
next
  case (Cons e es)
  let ?w = "if shapeType e = ''points''
            then emit (Dom (AddElementShape sid (clientID e)))
                   (v\<lparr>svgShapes := insert (clientID e) (svgShapes v)\<rparr>)
            else v"
  from Cons(2,3) have "apart k v ?w" by (simp add: apart_def emit_def)
  moreover from Cons(3) have "apart k ?w (addSkeleton_elements sid es ?w)"
    by (intro Cons(1) [OF Cons(2)]) simp
  ultimately have "apart k v (addSkeleton_elements sid es ?w)" by (rule apart_trans)
  then show ?case by simp
qed

lemma addSkeleton_apart:
  assumes "k \<notin> set (removed_ids s)" and "shapeType s = ''skeleton''"
  shows "apart k v (addSkeleton s v)"
proof -
  from assms have ck: "clientID s \<noteq> k" and "k \<notin> set (removed_ids_list (elements s))"
    by (simp_all add: removed_ids_eq element_ids_def)
  then have "\<forall>x\<in>set (elements s). k \<noteq> clientID x \<and> k \<notin> set (element_ids x)"
    by (simp add: removed_ids_list_set)
  then have es: "\<forall>e\<in>set (elements s). clientID e \<noteq> k" by blast
  have "apart k v (emit (Dom (AddShape (clientID s) ''skeleton'')) v)"
    using ck by (simp add: apart_emit)
  then show ?thesis unfolding addSkeleton_def
    by (rule apart_trans) (rule addSkeleton_elements_apart [OF ck es])
qed

lemma addObject_apart:
  assumes run: "addObject dat s v = Inr v'" and ne: "no_element k v"
    and ks: "k \<notin> set (removed_ids s)"
  shows "apart k v v' \<and> no_element k v'"
proof (cases "drawable (shapeType s)")
  case False
  with run ne show ?thesis by (simp add: addObject_def)
next
  case True
  from ks have ck: "clientID s \<noteq> k" and ke: "k \<notin> set (element_ids s)"
    by (simp_all add: removed_ids_Cons)
  let ?v1 = "if shapeType s = ''skeleton'' then addSkeleton s v
             else emit (Dom (AddShape (clientID s) (shapeType s))) v"
  let ?v2 = "?v1\<lparr>svgShapes := insert (clientID s) (svgShapes ?v1)\<rparr>"
  from run True obtain v3 where
    3: "(if dat then updateTextPosition (clientID s) (store_text s ?v2) else Inr ?v2) = Inr v3"
    and v': "v' = save_drawn s v3"
    by (auto simp: addObject_def Let_def and_then_Inr)
  have s1: "apart k v ?v1" using ks ck by (simp add: addSkeleton_apart apart_emit)
  have d1: "drawnStates ?v1 = drawnStates v"
    by (simp add: addSkeleton_def emit_def addSkeleton_elements_drawn)
  have s2: "apart k v ?v2" using s1 by (rule apart_then) simp
  have n2: "no_element k ?v2" using ne d1 by (simp add: no_element_def)
  have s3: "apart k ?v2 v3 \<and> no_element k v3"
  proof (cases dat)
    case False
    with 3 n2 show ?thesis by simp
  next
    case dd: True
    with 3 have u: "updateTextPosition (clientID s) (store_text s ?v2) = Inr v3" by simp
    have a: "apart k ?v2 (store_text s ?v2)" using ks by (rule store_text_apart)
    have n: "no_element k (store_text s ?v2)" using store_text_step n2 by (rule no_element_label)
    from updateTextPosition_apart [OF u n ck] a have "apart k ?v2 v3" by (blast intro: apart_trans)
    moreover from updateTextPosition_step [OF u] n have "no_element k v3" by (rule no_element_label)
    ultimately show ?thesis by simp
  qed
  have "apart k v3 v'" unfolding v' by (rule apart_silent) (simp add: save_drawn_def)
  moreover have "no_element k v'" unfolding v' using s3 ke by (simp add: no_element_save)
  ultimately show ?thesis using s2 s3 by (blast intro: apart_trans)
qed

lemma addObjects_apart:
  "addObjects ss v = Inr v' \<Longrightarrow> no_element k v \<Longrightarrow> \<forall>s\<in>set ss. k \<notin> set (removed_ids s) \<Longrightarrow>
     apart k v v' \<and> no_element k v'"
  unfolding addObjects_def
proof (induction ss arbitrary: v)
  case Nil
  then show ?case by simp
next
  case (Cons s ss)
  let ?dat = "displayAllText (configuration v)"
  from Cons(2) obtain w where w: "addObject ?dat s v = Inr w"
    and r: "forEach (addObject ?dat) ss w = Inr v'"
    by (auto split: sum.splits)
  from Cons(4) have ks: "k \<notin> set (removed_ids s)" and kss: "\<forall>s\<in>set ss. k \<notin> set (removed_ids s)"
    by simp_all
  from addObject_apart [OF w Cons(3) ks] have 1: "apart k v w" and nw: "no_element k w" by simp_all
  from addObject_build [OF w] have "configuration w = configuration v"
    by (simp add: build_step_def scene_step_def)
  with r have "forEach (addObject (displayAllText (configuration w))) ss w = Inr v'" by simp
  from Cons(1) [OF this nw kss] 1 show ?case by (blast intro: apart_trans)
qed

lemma on_shape_apart: "on_shape cid op v = Inr v' \<Longrightarrow> k \<notin> set (op_ids op) \<Longrightarrow> apart k v v'"
  by (auto simp: on_shape_Inr apart_emit)

lemma patch_attr_apart:
  "patch_attr b cid op v = Inr v' \<Longrightarrow> k \<notin> set (op_ids op) \<Longrightarrow> apart k v v'"
  by (auto simp: patch_attr_def split: if_splits dest: on_shape_apart)

lemma no_element_dom: "dom_step v w \<Longrightarrow> no_element k v \<Longrightarrow> no_element k w"
  by (rule no_element_same) (rule dom_step_fields)

lemma patch_visibility_apart:
  assumes run: "patch_visibility s d t v = Inr v'" and ne: "no_element k v"
    and ck: "clientID s \<noteq> k"
  shows "apart k v v'"
proof (cases "hidden d \<noteq> hidden s \<or> outside d \<noteq> outside s")
  case False
  with run show ?thesis by (simp add: patch_visibility_def Let_def)
next
  case True
  let ?cid = "clientID s"
  let ?inv = "hidden s \<or> outside s \<or> isInnerHidden v ?cid"
  from run True obtain w where
    w: "on_shape ?cid (SetHiddenClass ?cid ?inv) v = Inr w"
    and r: "(if t then (if ?inv then Inr (emit (Dom (SetTextHiddenClass ?cid True)) w)
                        else updateTextPosition ?cid (emit (Dom (SetTextHiddenClass ?cid False)) w))
             else Inr w) = Inr v'"
    by (auto simp: patch_visibility_def Let_def and_then_Inr)
  from w ck have s1: "apart k v w" by (intro on_shape_apart) auto
  from w ne have nw: "no_element k w" by (rule no_element_dom [OF on_shape_dom])
  have "apart k w v'"
  proof (cases "t \<and> \<not> ?inv")
    case False
    with r ck show ?thesis by (auto simp: apart_emit split: if_splits)
  next
    case tt: True
    let ?w1 = "emit (Dom (SetTextHiddenClass ?cid False)) w"
    from tt r have u: "updateTextPosition ?cid ?w1 = Inr v'" by simp
    have a: "apart k w ?w1" using ck by (auto simp: apart_emit)
    have n: "no_element k ?w1" using nw by (simp add: no_element_def emit_def)
    from a updateTextPosition_apart [OF u n ck] show ?thesis by (rule apart_trans)
  qed
  with s1 show ?thesis by (rule apart_trans)
qed

lemma patch_geometry_apart:
  assumes "patch_geometry s d v = Inr v'" and ck: "clientID s \<noteq> k"
  shows "apart k v v'"
proof -
  from assms(1) obtain v1 v2 where
    1: "patch_attr (rotation d \<noteq> 0) (clientID s) (Untransform (clientID s)) v = Inr v1"
    and 2: "patch_attr (points s \<noteq> points d) (clientID s)
       (SetGeometry (clientID s) (translateToCanvas (c_offset (controller v1)) (points s))) v1 = Inr v2"
    and 3: "patch_attr (rotation s \<noteq> 0) (clientID s) (Rotate (clientID s) (rotation s)) v2 = Inr v'"
    by (auto simp: patch_geometry_def Let_def and_then_Inr)
  from 1 ck have "apart k v v1" by (intro patch_attr_apart) auto
  moreover from 2 ck have "apart k v1 v2" by (intro patch_attr_apart) auto
  moreover from 3 ck have "apart k v2 v'" by (intro patch_attr_apart) auto
  ultimately show ?thesis by (blast intro: apart_trans)
qed

lemma patch_color_apart:
  assumes "patch_color s d v = Inr v'" and ck: "clientID s \<noteq> k"
  shows "apart k v v'"
proof -
  let ?v1 = "if (label_id d \<noteq> label_id s \<or> color d \<noteq> color s) \<and> clientID s \<in> svgShapes v
             then emit (Dom (SetColor (clientID s))) v else v"
  have "apart k v ?v1" using ck by (auto simp: apart_emit)
  moreover from assms(1) have "patch_attr (group_id d \<noteq> group_id s \<or> group_color d \<noteq> group_color s)
      (clientID s) (SetColor (clientID s)) ?v1 = Inr v'"
    by (simp add: patch_color_def Let_def)
  then have "apart k ?v1 v'" using ck by (intro patch_attr_apart) auto
  ultimately show ?thesis by (rule apart_trans)
qed

lemma fold_emit_apart:
  assumes "\<And>x. k \<notin> set (effect_ids (f x))"
  shows "apart k v (fold (\<lambda>x w. if P x then emit (f x) w else w) xs v)"
proof (induction xs arbitrary: v)
  case Nil
  show ?case by simp
next
  case (Cons x xs)
  have "apart k v (if P x then emit (f x) v else v)" by (simp add: apart_emit assms)
  from this Cons have "apart k v (fold (\<lambda>x w. if P x then emit (f x) w else w) xs
      (if P x then emit (f x) v else v))" by (rule apart_trans)
  then show ?case by simp
qed

lemma patch_text_apart:
  assumes ks: "k \<notin> set (removed_ids s)"
  shows "apart k v (patch_text s d t v)"
proof -
  from ks have ck: "clientID s \<noteq> k" by (simp add: removed_ids_Cons)
  have a: "apart k v (store_text s (emit (Dom (RemoveText (clientID s))) v))"
    using apart_emit store_text_apart [OF ks] by (rule apart_trans) (use ck in auto)
  have b: "apart k v (fold (\<lambda>x w.
                  if map_of (attributes s) x \<noteq> map_of (attributes d) x \<and> t
                  then emit (Dom (PatchAttributeText (clientID s) x
                          (case map_of (attributes s) x of Some y \<Rightarrow> y | None \<Rightarrow> []))) w
                  else w) (object_keys (attributes s)) v)"
    by (rule fold_emit_apart) (use ck in auto)
  from a b show ?thesis unfolding patch_text_def Let_def by simp
qed

lemma updateObject_apart:
  assumes run: "updateObject s v = Inr v'" and ne: "no_element k v"
    and ks: "k \<notin> set (removed_ids s)" and idle: "ae_clientID (activeElement v) = None"
  shows "apart k v v' \<and> no_element k v' \<and> activeElement v' = activeElement v"
proof -
  from ks have ck: "clientID s \<noteq> k" and ke: "k \<notin> set (element_ids s)"
    by (simp_all add: removed_ids_Cons)
  from run obtain d where d: "map_of (drawnStates v) (clientID s) = Some d"
    by (cases "map_of (drawnStates v) (clientID s)") (simp_all add: updateObject_def Let_def)
  let ?t = "clientID s \<in> svgTexts v"
  from run d obtain v1 v2 v3 v4 v5 v6 where
    1: "patch_visibility s d ?t v = Inr v1"
    and 2: "patch_attr (zOrder d \<noteq> zOrder s) (clientID s) (SetZOrderAttr (clientID s) (zOrder s)) v1 = Inr v2"
    and 3: "patch_attr (occluded d \<noteq> occluded s) (clientID s)
              (SetOccludedClass (clientID s) (occluded s)) v2 = Inr v3"
    and 4: "patch_pinned s d v3 = Inr v4"
    and 5: "patch_geometry s d v4 = Inr v5"
    and 6: "patch_color s d (patch_text s d ?t v5) = Inr v6"
    and v': "save_drawn s v6 = v'"
    apply (simp add: updateObject_def Let_def and_then_Inr)
    apply (elim exE conjE)
    apply blast
    done
  have d1: "dom_step v v1" using 1 by (rule patch_visibility_dom)
  have d2: "dom_step v1 v2" using 2 by (rule patch_attr_dom)
  have d3: "dom_step v2 v3" using 3 by (rule patch_attr_dom)
  have a3: "activeElement v3 = activeElement v"
    using dom_step_fields(4) [OF d1] dom_step_fields(4) [OF d2] dom_step_fields(4) [OF d3] by simp
  with idle 4 have e4: "v4 = v3" by (simp add: patch_pinned_def)
  have d5: "dom_step v4 v5" using 5 by (rule patch_geometry_dom)
  have d6: "dom_step v5 v6"
    using patch_text_dom patch_color_dom [OF 6] by (rule dom_step_trans)
  have d: "dom_step v v6"
    using d1 d2 d3 d5 d6 unfolding e4 by (blast intro: dom_step_trans)
  have s1: "apart k v v1" using 1 ne ck by (rule patch_visibility_apart)
  have s2: "apart k v1 v2" using 2 ck by (intro patch_attr_apart) auto
  have s3: "apart k v2 v3" using 3 ck by (intro patch_attr_apart) auto
  have s5: "apart k v3 v5" using 5 ck unfolding e4 by (rule patch_geometry_apart)
  have s6: "apart k v5 v6"
    using patch_text_apart [OF ks] patch_color_apart [OF 6 ck] by (rule apart_trans)
  have "apart k v v6" using s1 s2 s3 s5 s6 by (blast intro: apart_trans)
  then have "apart k v v'" unfolding v' [symmetric] by (rule apart_then) (simp add: save_drawn_def)
  moreover have "no_element k v'" unfolding v' [symmetric]
    using no_element_dom [OF d ne] ke by (rule no_element_save)
  moreover have "activeElement v' = activeElement v" unfolding v' [symmetric]
    using dom_step_fields(4) [OF d] by (simp add: save_drawn_def)
  ultimately show ?thesis by simp
qed

lemma updateObjects_apart:
  "updateObjects ss v = Inr v' \<Longrightarrow> no_element k v \<Longrightarrow> \<forall>s\<in>set ss. k \<notin> set (removed_ids s) \<Longrightarrow>
   ae_clientID (activeElement v) = None \<Longrightarrow>
     apart k v v' \<and> no_element k v' \<and> activeElement v' = activeElement v"
  unfolding updateObjects_def
proof (induction ss arbitrary: v)
  case Nil
  then show ?case by simp
next
  case (Cons s ss)
  from Cons(2) obtain w where w: "updateObject s v = Inr w"
    and r: "forEach updateObject ss w = Inr v'"
    by (auto split: sum.splits)
  from Cons(4) have ks: "k \<notin> set (removed_ids s)" and kss: "\<forall>s\<in>set ss. k \<notin> set (removed_ids s)"
    by simp_all
  from updateObject_apart [OF w Cons(3) ks Cons(5)]
  have 1: "apart k v w" and nw: "no_element k w" and aw: "activeElement w = activeElement v"
    by simp_all
  from aw Cons(5) have iw: "ae_clientID (activeElement w) = None" by simp
  from Cons(1) [OF r nw kss iw] 1 aw show ?case by (auto intro: apart_trans)
qed

lemma deactivateAttribute_apart:
  "ae_clientID (activeElement v) \<noteq> Some k \<Longrightarrow> apart k v (deactivateAttribute v)"
  by (auto simp: deactivateAttribute_def apart_def emit_def Let_def split: option.splits)

lemma deactivateAttribute_drawn [simp]: "drawnStates (deactivateAttribute v) = drawnStates v"
  by (auto simp: deactivateAttribute_def emit_def Let_def split: option.splits)

lemma strip_affordances_drawn [simp]: "drawnStates (strip_affordances cid d v) = drawnStates v"
  by (simp add: strip_affordances_def emit_def Let_def)

lemma deactivateShape_apart:
  assumes run: "deactivateShape v = Inr v'" and ne: "no_element k v"
    and nk: "ae_clientID (activeElement v) \<noteq> Some k"
  shows "apart k v v'"
proof (cases "ae_clientID (activeElement v)")
  case None
  with run show ?thesis by (simp add: deactivateShape_def)
next
  case (Some cid)
  with nk have ck: "cid \<noteq> k" by simp
  from run Some obtain d v3 where
    3: "drop_label cid (strip_affordances cid d v) = Inr v3"
    and v': "v' = clear_active (sortObjects v3)"
    by (auto simp: deactivateShape_def and_then_Inr split: if_splits option.splits)
  let ?w = "strip_affordances cid d v"
  have a: "apart k v ?w" using ck by (auto simp: apart_def)
  have n: "no_element k ?w" using ne by (simp add: no_element_def)
  have b: "apart k ?w v3"
    using 3 n ck by (auto simp: drop_label_def split: if_splits dest: deleteText_apart)
  have "apart k v3 (sortObjects v3)" by (simp add: sortObjects_def apart_emit)
  then have "apart k v3 v'" unfolding v' by (rule apart_then) simp
  with a b show ?thesis by (blast intro: apart_trans)
qed

lemma deactivate_apart:
  assumes "deactivate v = Inr v'" and "no_element k v"
    and "ae_clientID (activeElement v) \<noteq> Some k"
  shows "apart k v v'"
proof -
  have "apart k v (deactivateAttribute v)" using assms(3) by (rule deactivateAttribute_apart)
  moreover have "apart k (deactivateAttribute v) v'"
    using assms by (intro deactivateShape_apart) (simp_all add: deactivate_def no_element_def)
  ultimately show ?thesis by (rule apart_trans)
qed

lemma find_state_id: "find_state c objs = Some st \<Longrightarrow> clientID st = c \<and> st \<in> set objs"
  by (auto simp: find_state_def find_Some_iff)

lemma showDirection_apart: "showDirection s v = Inr v' \<Longrightarrow> clientID s \<noteq> k \<Longrightarrow> apart k v v'"
  by (auto simp: showDirection_def apart_emit split: list.splits)

lemma install_affordances_apart:
  assumes "install_affordances s v = Inr v'" and ck: "clientID s \<noteq> k"
  shows "apart k v v'"
proof -
  let ?cid = "clientID s"
  from assms(1) obtain v1 v3 where
    1: "on_shape ?cid (ActivateShape ?cid) v = Inr v1"
    and 3: "(let v2 = (if shapeType s = ''cuboid'' \<and> showProjections (configuration v1)
                       then emit (Dom (SetProjections ?cid True)) v1 else v1)
             in if shapeType s = ''polygon'' \<or> shapeType s = ''polyline''
                then showDirection s v2 else Inr v2) = Inr v3"
    and v': "v' = emit (Dispatch (Activated s)) v3"
    unfolding install_affordances_def Let_def and_then_Inr by blast
  let ?v2 = "if shapeType s = ''cuboid'' \<and> showProjections (configuration v1)
             then emit (Dom (SetProjections ?cid True)) v1 else v1"
  from 1 ck have s1: "apart k v v1" by (intro on_shape_apart) auto
  have s2: "apart k v1 ?v2" using ck by (auto simp: apart_emit)
  from 3 have "(if shapeType s = ''polygon'' \<or> shapeType s = ''polyline''
                then showDirection s ?v2 else Inr ?v2) = Inr v3" by (simp add: Let_def)
  then have s3: "apart k ?v2 v3"
    using ck by (cases "shapeType s = ''polygon'' \<or> shapeType s = ''polyline''")
      (auto dest: showDirection_apart)
  have s4: "apart k v3 v'" unfolding v' using ck by (auto simp: apart_emit)
  from s1 s2 s3 s4 show ?thesis by (blast intro: apart_trans)
qed

lemma activateShape_apart:
  assumes run: "activateShape c v = Inr v'" and ck: "c \<noteq> k" and ne: "no_element k v"
    and el: "\<And>st. find_state c (c_objects (controller v)) = Some st \<Longrightarrow> k \<notin> set (element_ids st)"
  shows "apart k v v'"
proof (cases "find_state c (c_objects (controller v))")
  case None
  with run show ?thesis by (simp add: activateShape_def)
next
  case (Some s)
  from find_state_id [OF Some] ck have sk: "clientID s \<noteq> k" and sc: "clientID s = c" by simp_all
  from el [OF Some] sk have ks: "k \<notin> set (removed_ids s)" by (simp add: removed_ids_Cons)
  from run Some obtain v1 where 1: "set_pointer_events s v = Inr v1"
    and rest: "(if hidden s \<or> outside s then Inr v1
                else and_then (updateTextPosition c (ensure_text s v1)) (\<lambda>v2.
                       if stateIsLocked v2 s then Inr v2 else install_affordances s v2)) = Inr v'"
    by (auto simp: activateShape_def and_then_Inr)
  from 1 sk have s1: "apart k v v1"
    by (auto simp: set_pointer_events_def split: if_splits dest!: on_shape_apart)
  from 1 have "drawnStates v1 = drawnStates v"
    by (auto simp: set_pointer_events_def on_shape_Inr emit_def split: if_splits)
  with ne have n1: "no_element k v1" by (simp add: no_element_def)
  show ?thesis
  proof (cases "hidden s \<or> outside s")
    case True
    with rest s1 show ?thesis by simp
  next
    case False
    with rest obtain v2 where 2: "updateTextPosition c (ensure_text s v1) = Inr v2"
      and 3: "(if stateIsLocked v2 s then Inr v2 else install_affordances s v2) = Inr v'"
      by (auto simp: and_then_Inr)
    have a: "apart k v1 (ensure_text s v1)" using ks by (simp add: ensure_text_def store_text_apart)
    have n: "no_element k (ensure_text s v1)" using ensure_text_step n1 by (rule no_element_label)
    from updateTextPosition_apart [OF 2 n ck] a have s2: "apart k v1 v2" by (blast intro: apart_trans)
    from 3 sk have s3: "apart k v2 v'"
      by (cases "stateIsLocked v2 s") (auto dest: install_affordances_apart)
    from s1 s2 s3 show ?thesis by (blast intro: apart_trans)
  qed
qed

lemma activate_apart:
  assumes run: "activate ae v = Inr v'" and idle: "ae_clientID (activeElement v) = None"
    and c: "ae_clientID ae = Some c" and ck: "c \<noteq> k" and ne: "no_element k v"
    and el: "\<And>st. find_state c (c_objects (controller v)) = Some st \<Longrightarrow> k \<notin> set (element_ids st)"
  shows "apart k v v'"
proof -
  from run obtain v1 v2 where 1: "release_previous ae v = Inr v1"
    and 2: "claim_shape ae v1 = Inr v2" and v': "v' = claim_attribute ae v2"
    by (auto simp: activate_def and_then_Inr)
  from 1 idle have e1: "v1 = v" by (simp add: release_previous_def)
  from 2 c idle obtain w where w: "activateShape c v = Inr w"
    and v2: "v2 = w\<lparr>activeElement := (activeElement w)\<lparr>ae_clientID := Some c\<rparr>\<rparr>"
    unfolding e1 by (auto simp: claim_shape_def and_then_Inr)
  from activateShape_apart [OF w ck ne el] have "apart k v w" .
  then have s2: "apart k v v2" unfolding v2 by (rule apart_then) simp
  have "apart k v2 v'" unfolding v' using c ck
    by (auto simp: claim_attribute_def activateAttribute_def apart_def emit_def Let_def
        split: option.splits)
  with s2 show ?thesis by (rule apart_trans)
qed

lemma strip_cycle: "strip_op e \<Longrightarrow> cycle_op e"
  by (cases e rule: cycle_op.cases) simp_all

lemma label_cycle: "label_op e \<Longrightarrow> cycle_op e"
  by (rule strip_cycle) (rule label_strip)

lemma install_affordances_cycle:
  assumes "install_affordances s v = Inr v'"
  shows "soft_step cycle_op v v'"
proof -
  let ?cid = "clientID s"
  from assms obtain v1 v3 where
    1: "on_shape ?cid (ActivateShape ?cid) v = Inr v1"
    and 3: "(let v2 = (if shapeType s = ''cuboid'' \<and> showProjections (configuration v1)
                       then emit (Dom (SetProjections ?cid True)) v1 else v1)
             in if shapeType s = ''polygon'' \<or> shapeType s = ''polyline''
                then showDirection s v2 else Inr v2) = Inr v3"
    and v': "v' = emit (Dispatch (Activated s)) v3"
    unfolding install_affordances_def Let_def and_then_Inr by blast
  from 1 have s1: "soft_step cycle_op v v1" by (auto simp: on_shape_Inr soft_step_def)
  from 3 have "soft_step cycle_op v1 v3"
    by (auto simp: Let_def soft_step_def showDirection_def split: if_splits list.splits)
  with s1 have "soft_step cycle_op v v3" by (rule soft_step_trans)
  then show ?thesis unfolding v' by (auto simp: soft_step_def)
qed

lemma activateShape_cycle:
  assumes "activateShape cid v = Inr v'"
  shows "soft_step cycle_op v v'"
proof (cases "find_state cid (c_objects (controller v))")
  case None
  with assms show ?thesis by (simp add: activateShape_def)
next
  case (Some s)
  with assms obtain v1 where 1: "set_pointer_events s v = Inr v1"
    and rest: "(if hidden s \<or> outside s then Inr v1
                else and_then (updateTextPosition cid (ensure_text s v1)) (\<lambda>v2.
                       if stateIsLocked v2 s then Inr v2 else install_affordances s v2)) = Inr v'"
    by (auto simp: activateShape_def and_then_Inr)
  from 1 have s1: "soft_step cycle_op v v1"
    by (auto simp: set_pointer_events_def on_shape_Inr soft_step_def split: if_splits)
  show ?thesis
  proof (cases "hidden s \<or> outside s")
    case True
    with rest s1 show ?thesis by simp
  next
    case False
    with rest obtain v2 where 2: "updateTextPosition cid (ensure_text s v1) = Inr v2"
      and 3: "(if stateIsLocked v2 s then Inr v2 else install_affordances s v2) = Inr v'"
      by (auto simp: and_then_Inr)
    have "label_step v1 v2"
      using ensure_text_step updateTextPosition_step [OF 2] by (rule label_step_trans)
    then have "soft_step cycle_op v1 v2" by (rule label_soft) (rule label_cycle)
    with s1 have s2: "soft_step cycle_op v v2" by (rule soft_step_trans)
    from 3 have "soft_step cycle_op v2 v'"
      by (cases "stateIsLocked v2 s") (auto dest: install_affordances_cycle)
    with s2 show ?thesis by (rule soft_step_trans)
  qed
qed

lemma activate_cycle:
  assumes "activate ae v = Inr v'"
  shows "soft_step cycle_op v v'"
proof -
  from assms obtain v1 v2 where 1: "release_previous ae v = Inr v1"
    and 2: "claim_shape ae v1 = Inr v2" and v': "v' = claim_attribute ae v2"
    by (auto simp: activate_def and_then_Inr)
  from 1 have "soft_step cycle_op v v1"
    by (rule soft_step_mono [OF release_previous_soft]) (rule strip_cycle)
  moreover from 2 have "soft_step cycle_op v1 v2"
    by (auto simp: claim_shape_def and_then_Inr soft_step_def
        split: option.splits if_splits dest!: activateShape_cycle)
  moreover have "soft_step cycle_op v2 v'" unfolding v'
    by (rule soft_step_mono [OF claim_attribute_soft]) (rule strip_cycle)
  ultimately show ?thesis by (blast intro: soft_step_trans)
qed

lemma only_refl [simp]: "only P v v"
  by (simp add: only_def)

lemma only_trans: "only P a b \<Longrightarrow> only P b c \<Longrightarrow> only P a c"
  by (auto simp: only_def)

lemma only_emit: "P e \<Longrightarrow> only P v (emit e v)"
  by (simp add: only_def emit_def)

lemma only_effects: "only P v v' \<Longrightarrow> list_all P (new_effects v v')"
  by (auto simp: only_def new_effects_def)

lemma apart_only:
  assumes "apart k v v'" and "\<And>e. k \<notin> set (effect_ids e) \<Longrightarrow> P e"
  shows "only P v v'"
proof -
  from assms(1) obtain es where es: "trace v' = trace v @ es"
    and a: "list_all (\<lambda>e. k \<notin> set (effect_ids e)) es"
    unfolding apart_def by blast
  from a have "list_all P es" by (rule list.pred_mono_strong) (rule assms(2))
  with es show ?thesis unfolding only_def by blast
qed

lemma soft_only:
  assumes "soft_step Q v v'" and "\<And>e. Q e \<Longrightarrow> P e"
  shows "only P v v'"
proof -
  from assms(1) obtain es where es: "trace v' = trace v @ es" and a: "list_all Q es"
    unfolding soft_step_def by blast
  from a have "list_all P es" by (rule list.pred_mono_strong) (rule assms(2))
  with es show ?thesis unfolding only_def by blast
qed

lemma no_element_start:
  assumes "elements_apart v L" and "k \<in> clientID ` set L"
  shows "no_element k v"
proof -
  from assms(1) have all: "\<forall>s\<in>snd ` set (drawnStates v) \<union> set L.
      \<forall>x\<in>set (element_ids s). x \<notin> clientID ` set L"
    by (simp add: elements_apart_def list_all_iff)
  have "k \<notin> set (element_ids d)" if "d \<in> snd ` set (drawnStates v)" for d
  proof
    assume k: "k \<in> set (element_ids d)"
    from that have "d \<in> snd ` set (drawnStates v) \<union> set L" by simp
    from bspec [OF bspec [OF all this] k] assms(2) show False by simp
  qed
  then show ?thesis by (simp add: no_element_def list_all_iff)
qed

lemma removed_ids_list_all:
  "\<forall>t\<in>set ss. k \<notin> set (removed_ids t) \<Longrightarrow> k \<notin> set (removed_ids_list ss)"
  by (induction ss) simp_all

lemma pass_effects:
  assumes ok: "store_ok v" and dist: "distinct (map clientID L)" and ea: "elements_apart v L"
    and mem: "s \<in> set L" and nC: "s \<notin> set (created_of v L)" and nU: "s \<notin> set (updated_of v L)"
    and 1: "(if ae_clientID (activeElement v) \<noteq> None then deactivate v else Inr v) = Inr v1"
    and 2: "deleteObjects (deleted_of v L) v1 = Inr v2"
    and 3: "addObjects (created_of v L) v2 = Inr v3"
    and 4: "updateObjects (filter (\<lambda>s. shapeType s \<noteq> ''skeleton'') (updated_of v L)) v3 = Inr v4"
    and 5: "deleteObjects (filter (\<lambda>s. shapeType s = ''skeleton'') (updated_of v L)) v4 = Inr v5"
    and 6: "addObjects (filter (\<lambda>s. shapeType s = ''skeleton'') (updated_of v L)) v5 = Inr v6"
  shows "apart (clientID s) v1 v6" and "no_element (clientID s) v6"
    and "ae_clientID (activeElement v6) = None"
proof -
  let ?k = "clientID s"
  let ?C = "created_of v L" and ?U = "updated_of v L" and ?D = "deleted_of v L"
  let ?N = "filter (\<lambda>s. shapeType s \<noteq> ''skeleton'') ?U"
  let ?S = "filter (\<lambda>s. shapeType s = ''skeleton'') ?U"
  have kL: "?k \<in> clientID ` set L" using mem by simp
  have subC: "set ?C \<subseteq> set L" and subU: "set ?U \<subseteq> set L"
    by (auto simp: created_of_def updated_of_def)
  have incoming: "?k \<notin> set (removed_ids t)" if t: "t \<in> set L" and ts: "t \<noteq> s" for t
  proof -
    from distinct_ids [OF dist mem t] ts have "clientID t \<noteq> ?k" by blast
    moreover have "?k \<notin> set (element_ids t)"
      using elements_apart_incoming [OF ea t] kL by blast
    ultimately show ?thesis by (simp add: removed_ids_Cons)
  qed
  have kC: "\<forall>t\<in>set ?C. ?k \<notin> set (removed_ids t)" using subC nC incoming by blast
  have kU: "\<forall>t\<in>set ?U. ?k \<notin> set (removed_ids t)" using subU nU incoming by blast
  then have kN: "\<forall>t\<in>set ?N. ?k \<notin> set (removed_ids t)"
    and kS: "\<forall>t\<in>set ?S. ?k \<notin> set (removed_ids t)" by simp_all
  have kD: "?k \<notin> set (removed_ids_list ?D)"
  proof
    assume "?k \<in> set (removed_ids_list ?D)"
    then obtain d where d: "d \<in> set ?D" and kd: "?k = clientID d \<or> ?k \<in> set (element_ids d)"
      by (auto simp: removed_ids_list_set)
    from d obtain k' where k': "k' \<notin> clientID ` set L" and m: "map_of (drawnStates v) k' = Some d"
      by (auto simp: deleted_of_set)
    from store_ok_entry [OF ok m] k' have "clientID d \<notin> clientID ` set L" by simp
    moreover have "?k \<in> set (element_ids d) \<Longrightarrow> ?k \<notin> clientID ` set L"
      using elements_apart_stored [OF ea m] .
    ultimately have "clientID d \<noteq> ?k" and "?k \<notin> set (element_ids d)"
      using kL by auto
    with kd show False by simp
  qed
  have kSl: "?k \<notin> set (removed_ids_list ?S)"
    using kS by (rule removed_ids_list_all)
  have n0: "no_element ?k v" using ea kL by (rule no_element_start)
  have d1: "drawnStates v1 = drawnStates v"
    using 1 by (auto split: if_splits dest!: deactivate_soft simp: soft_step_def)
  have n1: "no_element ?k v1" using d1 n0 by (rule no_element_same)
  have a1: "ae_clientID (activeElement v1) = None"
    using 1 by (auto split: if_splits dest: deactivate_active(1))
  from deleteObject_apart(2) [OF 2 n1 kD] have s2: "apart ?k v1 v2" and n2: "no_element ?k v2"
    by simp_all
  have a2: "ae_clientID (activeElement v2) = None"
    using build_active [OF deleteObject_build(2) [OF 2]] a1 by simp
  from addObjects_apart [OF 3 n2 kC] have s3: "apart ?k v2 v3" and n3: "no_element ?k v3"
    by simp_all
  have a3: "ae_clientID (activeElement v3) = None"
    using build_active [OF addObjects_build [OF 3]] a2 by simp
  from updateObjects_apart [OF 4 n3 kN a3]
  have s4: "apart ?k v3 v4" and n4: "no_element ?k v4" and a4: "ae_clientID (activeElement v4) = None"
    using a3 by simp_all
  from deleteObject_apart(2) [OF 5 n4 kSl] have s5: "apart ?k v4 v5" and n5: "no_element ?k v5"
    by simp_all
  have a5: "ae_clientID (activeElement v5) = None"
    using build_active [OF deleteObject_build(2) [OF 5]] a4 by simp
  from addObjects_apart [OF 6 n5 kS] have s6: "apart ?k v5 v6" and n6: "no_element ?k v6"
    by simp_all
  have a6: "ae_clientID (activeElement v6) = None"
    using build_active [OF addObjects_build [OF 6]] a5 by simp
  note t = apart_trans
  from t [OF s2 t [OF s3 t [OF s4 t [OF s5 s6]]]] show "apart ?k v1 v6" .
  from n6 show "no_element ?k v6" .
  from a6 show "ae_clientID (activeElement v6) = None" .
qed

section \<open>The version of an object is its synchronisation key\<close>




end
